theory Spec2Isabelle
  imports Main "HOL-Library.Word" "HOL-Library.Monad_Syntax" "HOL-Library.Sublist"
begin

unbundle bit_operations_syntax

section \<open>WebSocket opening handshake of nanomsg (\<^verbatim>\<open>ws_handshake.c\<close>)\<close>

text \<open>
  The C types: \<^verbatim>\<open>uint8_t\<close> is \<open>8 word\<close>, \<^verbatim>\<open>uint32_t\<close> is
  \<open>32 word\<close>, \<^verbatim>\<open>char\<close> is \<open>char\<close>, and a buffer is the list of its cells.
  A function that can fail an \<^verbatim>\<open>nn_assert\<close> (which aborts the process) returns an
  option, \<open>None\<close> being the abort.
\<close>

type_synonym u8 = "8 word"
type_synonym u32 = "32 word"

subsection \<open>Base64 (\<^verbatim>\<open>base64_encode\<close>, \<^verbatim>\<open>base64_decode\<close>)\<close>

definition ENCODEMAP :: string where
  "ENCODEMAP = ''ABCDEFGHIJKLMNOPQRSTUVWXYZabcdefghijklmnopqrstuvwxyz0123456789+/''"

text \<open>
  The inner loop \<^verbatim>\<open>while (rem >= 6)\<close> of the encoder. The output buffer is the list of
  the characters written so far, so \<^verbatim>\<open>io\<close> is its length; \<open>None\<close> is the return of
  \<^verbatim>\<open>-ENOBUFS\<close>.
\<close>

fun enc_emit :: "nat \<Rightarrow> u32 \<Rightarrow> nat \<Rightarrow> string \<Rightarrow> (nat \<times> string) option" where
  "enc_emit out_len v rem out =
     (if 6 \<le> rem then
        (if out_len \<le> length out then None
         else enc_emit out_len v (rem - 6)
                (out @ [ENCODEMAP ! unat (drop_bit (rem - 6) v AND 63)]))
      else Some (rem, out))"

declare enc_emit.simps [simp del]

text \<open>The outer loop \<^verbatim>\<open>for (...; ii < in_len; ii++)\<close> over the input octets.\<close>

fun enc_loop :: "nat \<Rightarrow> u8 list \<Rightarrow> u32 \<Rightarrow> nat \<Rightarrow> string \<Rightarrow> (u32 \<times> nat \<times> string) option" where
  "enc_loop out_len [] v rem out = Some (v, rem, out)"
| "enc_loop out_len (ch # rest) v rem out =
     (let v' = push_bit 8 v OR ucast ch in
      case enc_emit out_len v' (rem + 8) out of
        None \<Rightarrow> None
      | Some (rem', out') \<Rightarrow> enc_loop out_len rest v' rem' out')"

text \<open>The padding loop \<^verbatim>\<open>while (io & 3)\<close>.\<close>

function enc_pad :: "nat \<Rightarrow> string \<Rightarrow> string option" where
  "enc_pad out_len out =
     (if length out mod 4 \<noteq> 0 then
        (if out_len \<le> length out then None else enc_pad out_len (out @ ''=''))
      else Some out)"
  by pat_completeness auto
termination
proof (relation "measure (\<lambda>(out_len, out). (4 - length out mod 4) mod 4)")
  fix out_len :: nat and out :: string
  assume nz: "length out mod 4 \<noteq> 0"
  obtain m where m: "length out mod 4 = m" and "m < 4"
    by simp
  with nz have "m = 1 \<or> m = 2 \<or> m = 3" by arith
  then show "((out_len, out @ ''=''), (out_len, out))
      \<in> measure (\<lambda>(out_len, out). (4 - length out mod 4) mod 4)"
    by (auto simp add: mod_Suc m)
qed simp

declare enc_pad.simps [simp del]

text \<open>
  \<^verbatim>\<open>base64_encode (in, in_len, out, out_len)\<close>: \<open>Some out\<close> when the function wrote the
  characters \<open>out\<close> followed by a NUL and returned \<^verbatim>\<open>io\<close>, the length of \<open>out\<close>;
  \<open>None\<close> when it returned \<^verbatim>\<open>-ENOBUFS\<close>.
\<close>

definition base64_encode :: "u8 list \<Rightarrow> nat \<Rightarrow> string option" where
  "base64_encode inp out_len =
     (case enc_loop out_len inp 0 0 [] of
        None \<Rightarrow> None
      | Some (v, rem, out) \<Rightarrow>
          (case (if rem \<noteq> 0 then
                   (if out_len \<le> length out then None
                    else Some (out @ [ENCODEMAP ! unat (push_bit (6 - rem) v AND 63)]))
                 else Some out) of
             None \<Rightarrow> None
           | Some out1 \<Rightarrow>
               (case enc_pad out_len out1 of
                  None \<Rightarrow> None
                | Some out2 \<Rightarrow> if out_len \<le> length out2 then None else Some out2)))"

text \<open>The lookup table of the decoder, as in the source; \<open>0xFF\<close> marks a character outside
  the alphabet.\<close>

definition DECODEMAP :: "u8 list" where
  "DECODEMAP = [
        0xFF, 0xFF, 0xFF, 0xFF, 0xFF, 0xFF, 0xFF, 0xFF,
        0xFF, 0xFF, 0xFF, 0xFF, 0xFF, 0xFF, 0xFF, 0xFF,
        0xFF, 0xFF, 0xFF, 0xFF, 0xFF, 0xFF, 0xFF, 0xFF,
        0xFF, 0xFF, 0xFF, 0xFF, 0xFF, 0xFF, 0xFF, 0xFF,
        0xFF, 0xFF, 0xFF, 0xFF, 0xFF, 0xFF, 0xFF, 0xFF,
        0xFF, 0xFF, 0xFF, 0x3E, 0xFF, 0xFF, 0xFF, 0x3F,
        0x34, 0x35, 0x36, 0x37, 0x38, 0x39, 0x3A, 0x3B,
        0x3C, 0x3D, 0xFF, 0xFF, 0xFF, 0x3E, 0xFF, 0xFF,
        0xFF, 0x00, 0x01, 0x02, 0x03, 0x04, 0x05, 0x06,
        0x07, 0x08, 0x09, 0x0A, 0x0B, 0x0C, 0x0D, 0x0E,
        0x0F, 0x10, 0x11, 0x12, 0x13, 0x14, 0x15, 0x16,
        0x17, 0x18, 0x19, 0xFF, 0xFF, 0xFF, 0xFF, 0xFF,
        0xFF, 0x1A, 0x1B, 0x1C, 0x1D, 0x1E, 0x1F, 0x20,
        0x21, 0x22, 0x23, 0x24, 0x25, 0x26, 0x27, 0x28,
        0x29, 0x2A, 0x2B, 0x2C, 0x2D, 0x2E, 0x2F, 0x30,
        0x31, 0x32, 0x33, 0xFF, 0xFF, 0xFF, 0xFF, 0xFF,
        0xFF, 0xFF, 0xFF, 0xFF, 0xFF, 0xFF, 0xFF, 0xFF,
        0xFF, 0xFF, 0xFF, 0xFF, 0xFF, 0xFF, 0xFF, 0xFF,
        0xFF, 0xFF, 0xFF, 0xFF, 0xFF, 0xFF, 0xFF, 0xFF,
        0xFF, 0xFF, 0xFF, 0xFF, 0xFF, 0xFF, 0xFF, 0xFF,
        0xFF, 0xFF, 0xFF, 0xFF, 0xFF, 0xFF, 0xFF, 0xFF,
        0xFF, 0xFF, 0xFF, 0xFF, 0xFF, 0xFF, 0xFF, 0xFF,
        0xFF, 0xFF, 0xFF, 0xFF, 0xFF, 0xFF, 0xFF, 0xFF,
        0xFF, 0xFF, 0xFF, 0xFF, 0xFF, 0xFF, 0xFF, 0xFF,
        0xFF, 0xFF, 0xFF, 0xFF, 0xFF, 0xFF, 0xFF, 0xFF,
        0xFF, 0xFF, 0xFF, 0xFF, 0xFF, 0xFF, 0xFF, 0xFF,
        0xFF, 0xFF, 0xFF, 0xFF, 0xFF, 0xFF, 0xFF, 0xFF,
        0xFF, 0xFF, 0xFF, 0xFF, 0xFF, 0xFF, 0xFF, 0xFF,
        0xFF, 0xFF, 0xFF, 0xFF, 0xFF, 0xFF, 0xFF, 0xFF,
        0xFF, 0xFF, 0xFF, 0xFF, 0xFF, 0xFF, 0xFF, 0xFF,
        0xFF, 0xFF, 0xFF, 0xFF, 0xFF, 0xFF, 0xFF, 0xFF,
        0xFF, 0xFF, 0xFF, 0xFF, 0xFF, 0xFF, 0xFF, 0xFF]"

text \<open>\<^verbatim>\<open>isspace\<close> in the C locale: space, \<^verbatim>\<open>\t \n \v \f \r\<close>.\<close>

definition isspace :: "char \<Rightarrow> bool" where
  "isspace c = (c = CHR 0x20 \<or> c = CHR 0x09 \<or> c = CHR 0x0A \<or> c = CHR 0x0B
                \<or> c = CHR 0x0C \<or> c = CHR 0x0D)"

text \<open>
  The loop of the decoder; the input character indexes the table by its code
  (\<open>0 .. 255\<close>). Leaving the loop by \<^verbatim>\<open>break\<close> and by running off the input both
  give \<open>Some\<close> of the loop variables.
\<close>

fun dec_loop :: "nat \<Rightarrow> string \<Rightarrow> u32 \<Rightarrow> nat \<Rightarrow> u8 list \<Rightarrow> (u32 \<times> nat \<times> u8 list) option" where
  "dec_loop out_len [] v rem out = Some (v, rem, out)"
| "dec_loop out_len (c # cs) v rem out =
     (if isspace c then dec_loop out_len cs v rem out
      else if c = CHR ''='' then Some (v, rem, out)
      else
        (let ch = DECODEMAP ! of_char c in
         if ch = 0xFF then Some (v, rem, out)
         else
           (let v' = push_bit 6 v OR ucast ch; rem' = rem + 6 in
            if 8 \<le> rem' then
              (if out_len \<le> length out then None
               else dec_loop out_len cs v' (rem' - 8)
                      (out @ [ucast (drop_bit (rem' - 8) v' AND 255)]))
            else dec_loop out_len cs v' rem' out)))"

text \<open>
  \<^verbatim>\<open>base64_decode (in, in_len, out, out_len)\<close>: \<open>Some out\<close> when the function wrote the
  octets \<open>out\<close> and returned \<^verbatim>\<open>io\<close>, their number; \<open>None\<close> when it returned
  \<^verbatim>\<open>-ENOBUFS\<close>.
\<close>

definition base64_decode :: "string \<Rightarrow> nat \<Rightarrow> u8 list option" where
  "base64_decode inp out_len =
     (case dec_loop out_len inp 0 0 [] of
        None \<Rightarrow> None
      | Some (v, rem, out) \<Rightarrow>
          if 8 \<le> rem then
            (if out_len \<le> length out then None
             else Some (out @ [ucast (drop_bit (rem - 8) v AND 255)]))
          else Some out)"

subsection \<open>SHA-1 (\<^verbatim>\<open>struct sha1hash\<close>, \<^verbatim>\<open>sha1_init\<close>, \<^verbatim>\<open>sha1_add\<close>,
  \<^verbatim>\<open>sha1_hashbyte\<close>, \<^verbatim>\<open>sha1_result\<close>)\<close>

text \<open>
  \<^verbatim>\<open>struct sha1hash\<close>: \<open>sha_buffer\<close> is \<^verbatim>\<open>uint32_t buffer [16]\<close> and \<open>sha_state\<close> is
  \<^verbatim>\<open>uint32_t state [5]\<close>.
\<close>

record sha1hash =
  sha_buffer :: "u32 list"
  sha_state :: "u32 list"
  bytes_hashed :: u32
  buffer_offset :: u8
  is_little_endian :: bool

text \<open>
  \<^verbatim>\<open>sha1_add\<close> writes the block buffer through \<^verbatim>\<open>uint8_t * const buf = (uint8_t*) s->buffer\<close>.
  \<open>store_byte le buf addr data\<close> is the assignment \<^verbatim>\<open>buf [addr] = data\<close> on a
  little-endian (\<open>le\<close>) or a big-endian machine: byte \<open>addr\<close> lies in word \<open>addr div 4\<close>,
  and its place in the word is the lowest byte for \<open>addr mod 4 = 0\<close> on a little-endian
  machine, the highest on a big-endian one.
\<close>

definition store_byte :: "bool \<Rightarrow> u32 list \<Rightarrow> nat \<Rightarrow> u8 \<Rightarrow> u32 list" where
  "store_byte le buf addr data =
     (let sh = 8 * (if le then addr mod 4 else 3 - addr mod 4) in
      buf[addr div 4 :=
        (buf ! (addr div 4) AND NOT (push_bit sh 0xFF)) OR push_bit sh (ucast data)])"

definition sha1_rol32 :: "u32 \<Rightarrow> nat \<Rightarrow> u32" where
  "sha1_rol32 num bits = push_bit bits num OR drop_bit (32 - bits) num"

text \<open>One pass of the loop \<^verbatim>\<open>for (i = 0; i < 80; i++)\<close> of \<^verbatim>\<open>sha1_add\<close>, on the
  variables \<open>a b c d e\<close> and the buffer; \<^verbatim>\<open>x & 15\<close> is \<open>x mod 16\<close>.\<close>

fun sha1_round :: "nat \<Rightarrow> u32 \<times> u32 \<times> u32 \<times> u32 \<times> u32 \<times> u32 list
    \<Rightarrow> u32 \<times> u32 \<times> u32 \<times> u32 \<times> u32 \<times> u32 list" where
  "sha1_round i (a, b, c, d, e, buf) =
     (let buf1 =
            (if 16 \<le> i then
               buf[i mod 16 :=
                 sha1_rol32 (buf ! ((i + 13) mod 16) XOR buf ! ((i + 8) mod 16) XOR
                             buf ! ((i + 2) mod 16) XOR buf ! (i mod 16)) 1]
             else buf);
          t = (if i < 20 then (d XOR (b AND (c XOR d))) + 0x5A827999
               else if i < 40 then (b XOR c XOR d) + 0x6ED9EBA1
               else if i < 60 then ((b AND c) OR (d AND (b OR c))) + 0x8F1BBCDC
               else (b XOR c XOR d) + 0xCA62C1D6);
          t1 = t + (sha1_rol32 a 5 + e + buf1 ! (i mod 16))
      in (t1, a, sha1_rol32 b 30, c, d, buf1))"

declare sha1_round.simps [simp del]

text \<open>\<^verbatim>\<open>sha1_init\<close> sets every field but the buffer; \<open>le\<close> is the byte order it detects.\<close>

definition sha1_init :: "bool \<Rightarrow> sha1hash \<Rightarrow> sha1hash" where
  "sha1_init le s =
     s\<lparr>is_little_endian := le,
       sha_state := [0x67452301, 0xefcdab89, 0x98badcfe, 0x10325476, 0xc3d2e1f0],
       bytes_hashed := 0,
       buffer_offset := 0\<rparr>"

definition sha1_add :: "sha1hash \<Rightarrow> u8 \<Rightarrow> sha1hash" where
  "sha1_add s data =
     (let buf = (if is_little_endian s
                 then store_byte True (sha_buffer s) (unat (buffer_offset s XOR 3)) data
                 else store_byte False (sha_buffer s) (unat (buffer_offset s)) data);
          off = buffer_offset s + 1
      in if off = 64 then
           (case fold sha1_round [0..<80]
                   (sha_state s ! 0, sha_state s ! 1, sha_state s ! 2, sha_state s ! 3,
                    sha_state s ! 4, buf) of
              (a, b, c, d, e, buf1) \<Rightarrow>
                s\<lparr>sha_buffer := buf1,
                  sha_state := [sha_state s ! 0 + a, sha_state s ! 1 + b, sha_state s ! 2 + c,
                                sha_state s ! 3 + d, sha_state s ! 4 + e],
                  buffer_offset := 0\<rparr>)
         else s\<lparr>sha_buffer := buf, buffer_offset := off\<rparr>)"

definition sha1_hashbyte :: "sha1hash \<Rightarrow> u8 \<Rightarrow> sha1hash" where
  "sha1_hashbyte s data = sha1_add (s\<lparr>bytes_hashed := bytes_hashed s + 1\<rparr>) data"

text \<open>The loop \<^verbatim>\<open>while (s->buffer_offset != 56) sha1_add (s, 0x00)\<close>.\<close>

function sha1_pad :: "sha1hash \<Rightarrow> sha1hash" where
  "sha1_pad s = (if buffer_offset s \<noteq> 56 then sha1_pad (sha1_add s 0x00) else s)"
  by pat_completeness auto

lemma buffer_offset_sha1_add:
  "buffer_offset (sha1_add s d) = (if buffer_offset s + 1 = 64 then 0 else buffer_offset s + 1)"
  by (simp add: sha1_add_def Let_def split: prod.splits)

lemma unat_buffer_offset_sha1_add:
  "unat (buffer_offset (sha1_add s d)) =
     (if unat (buffer_offset s) = 63 then 0 else (unat (buffer_offset s) + 1) mod 256)"
proof -
  let ?n = "unat (buffer_offset s)"
  have lt: "?n < 256" using unsigned_less [of "buffer_offset s", where ?'a = nat] by simp
  have suc: "unat (buffer_offset s + 1) = (?n + 1) mod 256"
    by (simp add: unat_word_ariths)
  have "(buffer_offset s + 1 = 64) = (unat (buffer_offset s + 1) = 64)"
    by (simp add: word_unat_eq_iff)
  also have "\<dots> = (?n = 63)" using lt by (simp add: suc mod_Suc)
  finally have "(buffer_offset s + 1 = 64) = (?n = 63)" .
  then show ?thesis by (simp add: buffer_offset_sha1_add suc)
qed

termination sha1_pad
proof (relation "measure (\<lambda>s. let n = unat (buffer_offset s) in
          if n \<le> 56 then 56 - n else if n < 64 then 120 - n else 312 - n)")
  fix s :: sha1hash
  assume ne: "buffer_offset s \<noteq> 56"
  let ?n = "unat (buffer_offset s)"
  have lt: "?n < 256" using unsigned_less [of "buffer_offset s", where ?'a = nat] by simp
  have "?n \<noteq> 56" using ne by (simp add: word_unat_eq_iff)
  with lt show "(sha1_add s 0, s) \<in> measure (\<lambda>s. let n = unat (buffer_offset s) in
          if n \<le> 56 then 56 - n else if n < 64 then 120 - n else 312 - n)"
    by (simp add: unat_buffer_offset_sha1_add Let_def mod_Suc) arith
qed simp

declare sha1_pad.simps [simp del]

text \<open>The byte swap of \<^verbatim>\<open>sha1_result\<close> on a little-endian machine, and the bytes of a
  word in memory, lowest address first.\<close>

definition bswap32 :: "u32 \<Rightarrow> u32" where
  "bswap32 w = (push_bit 24 w AND 0xFF000000) OR (push_bit 8 w AND 0x00FF0000) OR
               (drop_bit 8 w AND 0x0000FF00) OR (drop_bit 24 w AND 0x000000FF)"

definition bytes_of_u32 :: "bool \<Rightarrow> u32 \<Rightarrow> u8 list" where
  "bytes_of_u32 le w =
     (if le then [ucast w, ucast (drop_bit 8 w), ucast (drop_bit 16 w), ucast (drop_bit 24 w)]
      else [ucast (drop_bit 24 w), ucast (drop_bit 16 w), ucast (drop_bit 8 w), ucast w])"

text \<open>\<^verbatim>\<open>sha1_result\<close>: the 20 bytes at \<^verbatim>\<open>(uint8_t*) s->state\<close> after padding.\<close>

definition sha1_result :: "sha1hash \<Rightarrow> u8 list" where
  "sha1_result s =
     (let s1 = sha1_pad (sha1_add s 0x80);
          s2 = sha1_add (sha1_add (sha1_add s1 0) 0) 0;
          s3 = sha1_add s2 (ucast (drop_bit 29 (bytes_hashed s2)));
          s4 = sha1_add s3 (ucast (drop_bit 21 (bytes_hashed s3)));
          s5 = sha1_add s4 (ucast (drop_bit 13 (bytes_hashed s4)));
          s6 = sha1_add s5 (ucast (drop_bit 5 (bytes_hashed s5)));
          s7 = sha1_add s6 (ucast (push_bit 3 (bytes_hashed s6)));
          st = (if is_little_endian s7 then map bswap32 (sha_state s7) else sha_state s7)
      in concat (map (bytes_of_u32 (is_little_endian s7)) st))"

subsection \<open>Accept key (\<^verbatim>\<open>nn_ws_handshake_hash_key\<close>)\<close>

text \<open>
  Modelled from the spec: the macro \<^verbatim>\<open>NN_WS_HANDSHAKE_MAGIC_GUID\<close> of the header
  \<^verbatim>\<open>ws_handshake.h\<close>, the 36 characters the specification gives for it.
\<close>

definition NN_WS_HANDSHAKE_MAGIC_GUID :: string where
  "NN_WS_HANDSHAKE_MAGIC_GUID = ''258EAFA5-E914-47DA-95CA-C5AB0DC85B11''"

text \<open>
  \<^verbatim>\<open>nn_ws_handshake_hash_key (key, key_len, hashed, hashed_len)\<close>. The local
  \<^verbatim>\<open>struct sha1hash hash\<close> is not initialised: \<open>hash\<close> is what it holds on entry, and
  \<open>le\<close> is the byte order of the machine. The result is that of \<^verbatim>\<open>base64_encode\<close>.
\<close>

definition nn_ws_handshake_hash_key :: "bool \<Rightarrow> sha1hash \<Rightarrow> u8 list \<Rightarrow> nat \<Rightarrow> string option" where
  "nn_ws_handshake_hash_key le hash key hashed_len =
     (let h0 = sha1_init le hash;
          h1 = fold (\<lambda>b s. sha1_hashbyte s b) key h0;
          h2 = fold (\<lambda>b s. sha1_hashbyte s b) (map of_char NN_WS_HANDSHAKE_MAGIC_GUID) h1
      in base64_encode (sha1_result h2) hashed_len)"


subsection \<open>The accept key does not depend on the byte order or on the uninitialised buffer\<close>


lemma xor3_div4: "((n::nat) XOR 3) div 4 = n div 4"
proof -
  have "drop_bit 2 (n XOR 3) = drop_bit 2 n XOR drop_bit 2 (3::nat)"
    by (rule drop_bit_xor) 
  then show ?thesis by (simp add: drop_bit_eq_div)
qed

lemma xor3_mod4: "((n::nat) XOR 3) mod 4 = 3 - n mod 4"
proof -
  have a: "take_bit 2 (n XOR 3) = take_bit 2 n XOR take_bit 2 (3::nat)"
    by (rule take_bit_xor)
  have "n mod 4 = 0 \<or> n mod 4 = 1 \<or> n mod 4 = 2 \<or> n mod 4 = 3" by arith
  then show ?thesis using a by (auto simp add: take_bit_eq_mod)
qed

definition put_byte :: "u32 list \<Rightarrow> nat \<Rightarrow> u8 \<Rightarrow> u32 list" where
  "put_byte buf off data =
     buf[off div 4 := (buf ! (off div 4) AND NOT (push_bit (8 * (3 - off mod 4)) 0xFF))
                       OR push_bit (8 * (3 - off mod 4)) (ucast data)]"

lemma store_byte_False: "store_byte False buf off d = put_byte buf off d"
  by (simp add: store_byte_def put_byte_def Let_def)

lemma store_byte_True: "store_byte True buf (unat ((o8::u8) XOR 3)) d = put_byte buf (unat o8) d"
  by (simp add: store_byte_def put_byte_def Let_def unsigned_xor_eq xor3_div4 xor3_mod4)

lemma bit_255: "bit (0xFF::u32) j \<longleftrightarrow> j < 8"
proof -
  have m: "(mask 8 :: u32) = 0xFF" by (simp add: mask_eq_exp_minus_1)
  show ?thesis unfolding m [symmetric] by (auto simp add: bit_mask_iff)
qed

definition agree :: "nat \<Rightarrow> u32 \<Rightarrow> u32 \<Rightarrow> bool" where
  "agree k w w' \<longleftrightarrow> drop_bit (32 - 8 * k) w = drop_bit (32 - 8 * k) w'"

lemma agree_0: "agree 0 w w'"
  by (simp add: agree_def drop_bit_eq_zero_iff_not_bit_last) 

lemma agree_4: "agree 4 w w' \<Longrightarrow> w = w'"
  by (simp add: agree_def)

lemma agree_bits: "agree k w w' \<longleftrightarrow> (\<forall>n. 32 - 8 * k \<le> n \<longrightarrow> bit w n = bit w' n)"
proof
  assume "agree k w w'"
  then have e: "drop_bit (32 - 8 * k) w = drop_bit (32 - 8 * k) w'" by (simp add: agree_def)
  show "\<forall>n. 32 - 8 * k \<le> n \<longrightarrow> bit w n = bit w' n"
  proof (intro allI impI)
    fix n assume "32 - 8 * k \<le> n"
    then obtain m where n: "n = (32 - 8 * k) + m" using le_Suc_ex by blast
    have "bit (drop_bit (32 - 8 * k) w) m = bit (drop_bit (32 - 8 * k) w') m" using e by simp
    then show "bit w n = bit w' n" by (simp add: bit_drop_bit_eq n)
  qed
next
  assume "\<forall>n. 32 - 8 * k \<le> n \<longrightarrow> bit w n = bit w' n"
  then show "agree k w w'"
    unfolding agree_def by (intro bit_eqI) (simp add: bit_drop_bit_eq)
qed

lemma agree_step:
  assumes "agree k w w'" and "k < 4"
  shows "agree (Suc k)
           ((w AND NOT (push_bit (8 * (3 - k)) 0xFF)) OR push_bit (8 * (3 - k)) (ucast (d::u8)))
           ((w' AND NOT (push_bit (8 * (3 - k)) 0xFF)) OR push_bit (8 * (3 - k)) (ucast d))"
proof -
  have *: "\<forall>n. 32 - 8 * k \<le> n \<longrightarrow> bit w n = bit w' n"
    using assms(1) by (simp add: agree_bits)
  have s: "32 - 8 * Suc k = 8 * (3 - k)" using assms(2) by simp
  show ?thesis
    unfolding agree_bits
  proof (intro allI impI)
    fix n assume le: "32 - 8 * Suc k \<le> n"
    show "bit ((w AND NOT (push_bit (8 * (3 - k)) 0xFF)) OR push_bit (8 * (3 - k)) (ucast d)) n =
          bit ((w' AND NOT (push_bit (8 * (3 - k)) 0xFF)) OR push_bit (8 * (3 - k)) (ucast d)) n"
    proof (cases "32 - 8 * k \<le> n")
      case True
      then show ?thesis using * by (simp add: bit_simps)
    next
      case False
      then have "n - 8 * (3 - k) < 8" "8 * (3 - k) \<le> n" "n < 32" using le s assms(2) by auto
      then have "bit (push_bit (8 * (3 - k)) (0xFF::u32)) n"
        by (simp add: bit_push_bit_iff bit_255 del: bit_numeral_word_iff)
      then show ?thesis by (simp add: bit_simps)
    qed
  qed
qed

definition written :: "nat \<Rightarrow> nat \<Rightarrow> nat" where
  "written off i = min 4 (off - 4 * i)"

definition same_hash :: "sha1hash \<Rightarrow> sha1hash \<Rightarrow> bool" where
  "same_hash s s' \<longleftrightarrow>
     sha_state s = sha_state s' \<and> bytes_hashed s = bytes_hashed s' \<and>
     buffer_offset s = buffer_offset s' \<and> unat (buffer_offset s) < 64 \<and>
     length (sha_buffer s) = 16 \<and> length (sha_buffer s') = 16 \<and>
     (\<forall>i<16. agree (written (unat (buffer_offset s)) i) (sha_buffer s ! i) (sha_buffer s' ! i))"

lemma sha1_add_put:
  "sha1_add s data =
     (let buf = put_byte (sha_buffer s) (unat (buffer_offset s)) data;
          off = buffer_offset s + 1
      in if off = 64 then
           (case fold sha1_round [0..<80]
                   (sha_state s ! 0, sha_state s ! 1, sha_state s ! 2, sha_state s ! 3,
                    sha_state s ! 4, buf) of
              (a, b, c, d, e, buf1) \<Rightarrow>
                s\<lparr>sha_buffer := buf1,
                  sha_state := [sha_state s ! 0 + a, sha_state s ! 1 + b, sha_state s ! 2 + c,
                                sha_state s ! 3 + d, sha_state s ! 4 + e],
                  buffer_offset := 0\<rparr>)
         else s\<lparr>sha_buffer := buf, buffer_offset := off\<rparr>)"
  by (simp add: sha1_add_def store_byte_False store_byte_True)

lemma put_byte_agree:
  assumes "length b = 16" "length b' = 16" "off < 64"
    and "\<forall>i<16. agree (written off i) (b ! i) (b' ! i)"
  shows "\<forall>i<16. agree (written (Suc off) i) (put_byte b off d ! i) (put_byte b' off d ! i)"
proof (intro allI impI)
  fix i :: nat assume i: "i < 16"
  show "agree (written (Suc off) i) (put_byte b off d ! i) (put_byte b' off d ! i)"
  proof (cases "i = off div 4")
    case True
    have d: "off - 4 * (off div 4) = off mod 4" by (simp add: minus_mult_div_eq_mod)
    have "4 * (off div 4) \<le> off" by simp
    then have "Suc off - 4 * (off div 4) = Suc (off - 4 * (off div 4))" by (rule Suc_diff_le)
    then have k: "written off (off div 4) = off mod 4"
        "written (Suc off) (off div 4) = Suc (off mod 4)"
      unfolding written_def using d by simp_all
    have "agree (off mod 4) (b ! i) (b' ! i)" using assms(4) i k True by metis
    from agree_step [OF this, of d] show ?thesis
      using assms i by (simp add: put_byte_def True k)
  next
    case False
    have "written (Suc off) i = written off i"
      using False unfolding written_def by (simp add: min_def)
    then show ?thesis using assms i False by (simp add: put_byte_def)
  qed
qed

lemma length_put_byte [simp]: "length (put_byte b off d) = length b"
  by (simp add: put_byte_def)

lemma written_64: "i < 16 \<Longrightarrow> written 64 i = 4"
  by (simp add: written_def min_def)

lemma written_0: "written 0 i = 0"
  by (simp add: written_def)

lemma length_fold_sha1_round:
  "fold sha1_round is (a, b, c, d, e, buf) = (a', b', c', d', e', buf') \<Longrightarrow> length buf' = length buf"
proof (induction "is" arbitrary: a b c d e buf)
  case Nil
  then show ?case by simp
next
  case (Cons i "is")
  obtain a1 b1 c1 d1 e1 buf1 where r: "sha1_round i (a, b, c, d, e, buf) = (a1, b1, c1, d1, e1, buf1)"
    by (metis prod_cases6)
  then have "length buf1 = length buf"
    by (auto simp add: sha1_round.simps Let_def split: if_splits)
  moreover have "length buf' = length buf1" using Cons r by simp
  ultimately show ?case by simp
qed

lemma same_hash_sha1_add:
  assumes "same_hash s s'"
  shows "same_hash (sha1_add s d) (sha1_add s' d)"
proof -
  let ?off = "unat (buffer_offset s)"
  from assms have st: "sha_state s = sha_state s'" and bh: "bytes_hashed s = bytes_hashed s'"
    and bo: "buffer_offset s = buffer_offset s'" and lt: "?off < 64"
    and l: "length (sha_buffer s) = 16" and l': "length (sha_buffer s') = 16"
    and ag: "\<forall>i<16. agree (written ?off i) (sha_buffer s ! i) (sha_buffer s' ! i)"
    by (auto simp add: same_hash_def)
  let ?b = "put_byte (sha_buffer s) ?off d" and ?b' = "put_byte (sha_buffer s') ?off d"
  have ag1: "\<forall>i<16. agree (written (Suc ?off) i) (?b ! i) (?b' ! i)"
    using put_byte_agree [OF l l' lt ag] .
  have suc: "unat (buffer_offset s + 1) = Suc ?off"
    using lt by (simp add: unat_word_ariths)
  have e64: "(buffer_offset s + 1 = 64) = (?off = 63)"
    using suc by (simp add: word_unat_eq_iff)
  show ?thesis
  proof (cases "?off = 63")
    case True
    have "\<forall>i<16. ?b ! i = ?b' ! i"
      using ag1 True by (auto simp add: written_64 dest: agree_4)
    then have eq: "?b = ?b'" using l l' by (intro nth_equalityI) simp_all
    obtain a b c d1 e buf1 where f: "fold sha1_round [0..<80]
         (sha_state s' ! 0, sha_state s' ! 1, sha_state s' ! 2, sha_state s' ! 3, sha_state s' ! 4, ?b')
         = (a, b, c, d1, e, buf1)" by (metis prod_cases6)
    have "length buf1 = 16" using length_fold_sha1_round [OF f] l' by simp
    then show ?thesis
      using True e64 bo st bh f eq
      by (simp add: sha1_add_put same_hash_def written_0 agree_0)
  next
    case False
    then show ?thesis
      using e64 bo st bh l l' lt ag1 suc
      by (simp add: sha1_add_put same_hash_def)
  qed
qed

lemma same_hash_sha1_hashbyte:
  "same_hash s s' \<Longrightarrow> same_hash (sha1_hashbyte s d) (sha1_hashbyte s' d)"
  unfolding sha1_hashbyte_def
  by (rule same_hash_sha1_add) (auto simp add: same_hash_def)

lemma same_hash_fold:
  "same_hash s s' \<Longrightarrow>
   same_hash (fold (\<lambda>b s. sha1_hashbyte s b) bs s) (fold (\<lambda>b s. sha1_hashbyte s b) bs s')"
  by (induction bs arbitrary: s s') (simp_all add: same_hash_sha1_hashbyte)

lemma same_hash_sha1_pad:
  "same_hash s s' \<Longrightarrow> same_hash (sha1_pad s) (sha1_pad s')"
proof (induction s arbitrary: s' rule: sha1_pad.induct)
  case (1 s)
  have bo: "buffer_offset s' = buffer_offset s" using "1.prems" by (simp add: same_hash_def)
  show ?case
  proof (cases "buffer_offset s = 56")
    case True
    then show ?thesis using "1.prems" bo by (simp add: sha1_pad.simps)
  next
    case False
    have "same_hash (sha1_pad (sha1_add s 0)) (sha1_pad (sha1_add s' 0))"
      using "1.IH" [OF False same_hash_sha1_add [OF "1.prems"]] .
    then show ?thesis using False bo by (simp add: sha1_pad.simps [of s] sha1_pad.simps [of s'])
  qed
qed


lemma mask_consts:
  "(0xFF000000 :: u32) = push_bit 24 (mask 8)" "(0x00FF0000 :: u32) = push_bit 16 (mask 8)"
  "(0x0000FF00 :: u32) = push_bit 8 (mask 8)" "(0x000000FF :: u32) = mask 8"
  by (simp_all add: mask_eq_exp_minus_1)

lemma ucast_bswap32_0: "ucast (bswap32 w) = (ucast (drop_bit 24 w) :: u8)"
  unfolding bswap32_def mask_consts by (rule bit_eqI) (auto simp add: bit_simps)

lemma ucast_bswap32_8: "ucast (drop_bit 8 (bswap32 w)) = (ucast (drop_bit 16 w) :: u8)"
  unfolding bswap32_def mask_consts by (rule bit_eqI) (auto simp add: bit_simps)

lemma ucast_bswap32_16: "ucast (drop_bit 16 (bswap32 w)) = (ucast (drop_bit 8 w) :: u8)"
  unfolding bswap32_def mask_consts by (rule bit_eqI) (auto simp add: bit_simps)

lemma ucast_bswap32_24: "ucast (drop_bit 24 (bswap32 w)) = (ucast w :: u8)"
  unfolding bswap32_def mask_consts by (rule bit_eqI) (auto simp add: bit_simps)

lemma bytes_of_u32_bswap32: "bytes_of_u32 True (bswap32 w) = bytes_of_u32 False w"
  by (simp add: bytes_of_u32_def ucast_bswap32_0 ucast_bswap32_8 ucast_bswap32_16
      ucast_bswap32_24)

lemma result_bytes:
  "concat (map (bytes_of_u32 le) (if le then map bswap32 st else st)) =
   concat (map (bytes_of_u32 False) st)"
  by (cases le) (simp_all add: bytes_of_u32_bswap32 comp_def)

lemma length_result_bytes: "length (concat (map (bytes_of_u32 False) st)) = 4 * length st"
  by (induction st) (simp_all add: bytes_of_u32_def)

text \<open>The state before the byte swap of \<^verbatim>\<open>sha1_result\<close>.\<close>

definition sha1_final :: "sha1hash \<Rightarrow> sha1hash" where
  "sha1_final s =
     (let s1 = sha1_pad (sha1_add s 0x80);
          s2 = sha1_add (sha1_add (sha1_add s1 0) 0) 0;
          s3 = sha1_add s2 (ucast (drop_bit 29 (bytes_hashed s2)));
          s4 = sha1_add s3 (ucast (drop_bit 21 (bytes_hashed s3)));
          s5 = sha1_add s4 (ucast (drop_bit 13 (bytes_hashed s4)));
          s6 = sha1_add s5 (ucast (drop_bit 5 (bytes_hashed s5)))
      in sha1_add s6 (ucast (push_bit 3 (bytes_hashed s6))))"

lemma sha1_result_final:
  "sha1_result s = concat (map (bytes_of_u32 False) (sha_state (sha1_final s)))"
  by (simp add: sha1_result_def sha1_final_def Let_def result_bytes)

lemma same_hash_bytes_hashed: "same_hash s s' \<Longrightarrow> bytes_hashed s' = bytes_hashed s"
  by (simp add: same_hash_def)

lemma same_hash_sha1_final:
  assumes "same_hash s s'"
  shows "same_hash (sha1_final s) (sha1_final s')"
proof -
  define s1 where "s1 = sha1_pad (sha1_add s 0x80)"
  define t1 where "t1 = sha1_pad (sha1_add s' 0x80)"
  have r1: "same_hash s1 t1"
    unfolding s1_def t1_def by (intro same_hash_sha1_pad same_hash_sha1_add assms)
  define s2 where "s2 = sha1_add (sha1_add (sha1_add s1 0) 0) 0"
  define t2 where "t2 = sha1_add (sha1_add (sha1_add t1 0) 0) 0"
  have r2: "same_hash s2 t2"
    unfolding s2_def t2_def by (intro same_hash_sha1_add r1)
  define s3 where "s3 = sha1_add s2 (ucast (drop_bit 29 (bytes_hashed s2)))"
  define t3 where "t3 = sha1_add t2 (ucast (drop_bit 29 (bytes_hashed t2)))"
  have r3: "same_hash s3 t3"
    unfolding s3_def t3_def same_hash_bytes_hashed [OF r2] by (intro same_hash_sha1_add r2)
  define s4 where "s4 = sha1_add s3 (ucast (drop_bit 21 (bytes_hashed s3)))"
  define t4 where "t4 = sha1_add t3 (ucast (drop_bit 21 (bytes_hashed t3)))"
  have r4: "same_hash s4 t4"
    unfolding s4_def t4_def same_hash_bytes_hashed [OF r3] by (intro same_hash_sha1_add r3)
  define s5 where "s5 = sha1_add s4 (ucast (drop_bit 13 (bytes_hashed s4)))"
  define t5 where "t5 = sha1_add t4 (ucast (drop_bit 13 (bytes_hashed t4)))"
  have r5: "same_hash s5 t5"
    unfolding s5_def t5_def same_hash_bytes_hashed [OF r4] by (intro same_hash_sha1_add r4)
  define s6 where "s6 = sha1_add s5 (ucast (drop_bit 5 (bytes_hashed s5)))"
  define t6 where "t6 = sha1_add t5 (ucast (drop_bit 5 (bytes_hashed t5)))"
  have r6: "same_hash s6 t6"
    unfolding s6_def t6_def same_hash_bytes_hashed [OF r5] by (intro same_hash_sha1_add r5)
  have r7: "same_hash (sha1_add s6 (ucast (push_bit 3 (bytes_hashed s6))))
                      (sha1_add t6 (ucast (push_bit 3 (bytes_hashed t6))))"
    unfolding same_hash_bytes_hashed [OF r6] by (intro same_hash_sha1_add r6)
  have "sha1_final s = sha1_add s6 (ucast (push_bit 3 (bytes_hashed s6)))"
    by (simp add: sha1_final_def Let_def s1_def s2_def s3_def s4_def s5_def s6_def)
  moreover have "sha1_final s' = sha1_add t6 (ucast (push_bit 3 (bytes_hashed t6)))"
    by (simp add: sha1_final_def Let_def t1_def t2_def t3_def t4_def t5_def t6_def)
  ultimately show ?thesis using r7 by simp
qed

lemma same_hash_sha1_result:
  assumes "same_hash s s'"
  shows "sha1_result s = sha1_result s'"
proof -
  have "sha_state (sha1_final s) = sha_state (sha1_final s')"
    using same_hash_sha1_final [OF assms] unfolding same_hash_def by blast
  then show ?thesis by (simp add: sha1_result_final)
qed

lemma same_hash_sha1_init:
  "length (sha_buffer h) = 16 \<Longrightarrow> length (sha_buffer h') = 16 \<Longrightarrow>
   same_hash (sha1_init le h) (sha1_init le' h')"
  by (simp add: same_hash_def sha1_init_def written_0 agree_0)

lemma hash_key_independent:
  assumes "length (sha_buffer h) = 16" "length (sha_buffer h') = 16"
  shows "nn_ws_handshake_hash_key le h key n = nn_ws_handshake_hash_key le' h' key n"
proof -
  let ?f = "fold (\<lambda>b s. sha1_hashbyte s b)"
  have "same_hash (?f (map of_char NN_WS_HANDSHAKE_MAGIC_GUID) (?f key (sha1_init le h)))
                  (?f (map of_char NN_WS_HANDSHAKE_MAGIC_GUID) (?f key (sha1_init le' h')))"
    by (intro same_hash_fold same_hash_sha1_init assms)
  from same_hash_sha1_result [OF this] show ?thesis
    by (simp add: nn_ws_handshake_hash_key_def Let_def)
qed

lemma length_sha_state_sha1_add:
  "length (sha_state s) = 5 \<Longrightarrow> length (sha_state (sha1_add s d)) = 5"
  by (simp add: sha1_add_def Let_def split: prod.splits)

lemma length_sha_state_sha1_pad:
  "length (sha_state s) = 5 \<Longrightarrow> length (sha_state (sha1_pad s)) = 5"
proof (induction s rule: sha1_pad.induct)
  case (1 s)
  then show ?case
    by (cases "buffer_offset s = 56") (simp_all add: sha1_pad.simps [of s] length_sha_state_sha1_add)
qed

lemma length_sha_state_fold:
  "length (sha_state s) = 5 \<Longrightarrow> length (sha_state (fold (\<lambda>b s. sha1_hashbyte s b) bs s)) = 5"
  by (induction bs arbitrary: s) (simp_all add: sha1_hashbyte_def length_sha_state_sha1_add)

lemma length_sha1_result: "length (sha_state s) = 5 \<Longrightarrow> length (sha1_result s) = 20"
  by (simp add: sha1_result_final length_result_bytes sha1_final_def Let_def
      length_sha_state_sha1_add length_sha_state_sha1_pad)

subsection \<open>The length of the Base64 encoding\<close>

lemma divmod_eq: "(a::nat) = b * q + r \<Longrightarrow> r < b \<Longrightarrow> a div b = q \<and> a mod b = r"
  by simp

lemma three_cases:
  obtains q where "(m::nat) = 3 * q" | q where "m = 3 * q + 1" | q where "m = 3 * q + 2"
proof -
  have e: "m = 3 * (m div 3) + m mod 3" by simp
  have "m mod 3 < 3" by simp
  then have "m mod 3 = 0 \<or> m mod 3 = 1 \<or> m mod 3 = 2" by linarith
  then show ?thesis using that e by (metis add.right_neutral)
qed

lemma sextet_count:
  assumes "6 * l + r = 8 * (m::nat)" "r < 6"
  shows "(\<exists>q. m = 3 * q \<and> l = 4 * q \<and> r = 0) \<or> (\<exists>q. m = 3 * q + 1 \<and> l = 4 * q + 1 \<and> r = 2) \<or>
         (\<exists>q. m = 3 * q + 2 \<and> l = 4 * q + 2 \<and> r = 4)"
proof -
  have lr: "(8 * m) div 6 = l \<and> (8 * m) mod 6 = r"
    using assms by (intro divmod_eq) simp_all
  show ?thesis
  proof (cases m rule: three_cases)
    case (1 q)
    have "(8 * m) div 6 = 4 * q \<and> (8 * m) mod 6 = 0"
      using 1 by (intro divmod_eq) simp_all
    then show ?thesis using lr 1 by simp
  next
    case (2 q)
    have "(8 * m) div 6 = 4 * q + 1 \<and> (8 * m) mod 6 = 2"
      using 2 by (intro divmod_eq) simp_all
    then show ?thesis using lr 2 by simp
  next
    case (3 q)
    have "(8 * m) div 6 = 4 * q + 2 \<and> (8 * m) mod 6 = 4"
      using 3 by (intro divmod_eq) simp_all
    then show ?thesis using lr 3 by simp
  qed
qed

lemma third_up:
  "(3 * q + 2) div 3 = (q::nat)" "(3 * q + 1 + 2) div 3 = q + 1" "(3 * q + 2 + 2) div 3 = q + 1"
proof -
  show "(3 * q + 2) div 3 = q" using divmod_eq [of "3 * q + 2" 3 q 2] by simp
  have "3 * q + 1 + 2 = 3 * (q + 1) + 0" by simp
  then show "(3 * q + 1 + 2) div 3 = q + 1" using divmod_eq [of "3 * q + 1 + 2" 3 "q + 1" 0] by simp
  have "3 * q + 2 + 2 = 3 * (q + 1) + 1" by simp
  then show "(3 * q + 2 + 2) div 3 = q + 1" using divmod_eq [of "3 * q + 2 + 2" 3 "q + 1" 1] by simp
qed

lemma enc_emit_total:
  "6 * length out + r \<le> 6 * n + 5 \<Longrightarrow>
   \<exists>r' out'. enc_emit n v r out = Some (r', out') \<and> r' < 6 \<and>
     6 * length out' + r' = 6 * length out + r"
proof (induction n v r out rule: enc_emit.induct)
  case (1 out_len v rem out)
  show ?case
  proof (cases "6 \<le> rem")
    case False
    then show ?thesis by (simp add: enc_emit.simps [of out_len v rem out])
  next
    case True
    with "1.prems" have nf: "\<not> out_len \<le> length out" by simp
    let ?out1 = "out @ [ENCODEMAP ! unat (drop_bit (rem - 6) v AND 63)]"
    have "6 * length ?out1 + (rem - 6) \<le> 6 * out_len + 5" using "1.prems" True by simp
    from "1.IH" [OF True nf this] obtain r' out' where
      "enc_emit out_len v (rem - 6) ?out1 = Some (r', out')" "r' < 6"
      "6 * length out' + r' = 6 * length ?out1 + (rem - 6)" by blast
    then show ?thesis using True nf by (simp add: enc_emit.simps [of out_len v rem out])
  qed
qed

lemma enc_loop_total:
  "rem < 6 \<Longrightarrow> 6 * length out + rem + 8 * length xs \<le> 6 * n + 5 \<Longrightarrow>
   \<exists>v' r' out'. enc_loop n xs v rem out = Some (v', r', out') \<and> r' < 6 \<and>
     6 * length out' + r' = 6 * length out + rem + 8 * length xs"
proof (induction xs arbitrary: v rem out)
  case Nil
  then show ?case by simp
next
  case (Cons ch xs)
  let ?v = "push_bit 8 v OR ucast ch"
  have "6 * length out + (rem + 8) \<le> 6 * n + 5" using Cons.prems by simp
  from enc_emit_total [OF this, of ?v] obtain r1 out1 where
    e: "enc_emit n ?v (rem + 8) out = Some (r1, out1)" and r1: "r1 < 6"
    and l1: "6 * length out1 + r1 = 6 * length out + (rem + 8)" by blast
  have "6 * length out1 + r1 + 8 * length xs \<le> 6 * n + 5" using Cons.prems l1 by simp
  from Cons.IH [OF r1 this, of ?v] obtain v' r' out' where
    "enc_loop n xs ?v r1 out1 = Some (v', r', out')" "r' < 6"
    "6 * length out' + r' = 6 * length out1 + r1 + 8 * length xs" by blast
  then show ?case using e l1 by (simp add: Let_def)
qed

lemma enc_pad_total:
  "length out \<le> 4 * k \<Longrightarrow> 4 * k < length out + 4 \<Longrightarrow> 4 * k \<le> n \<Longrightarrow>
   \<exists>out'. enc_pad n out = Some out' \<and> length out' = 4 * k"
proof (induction n out rule: enc_pad.induct)
  case (1 out_len out)
  show ?case
  proof (cases "length out mod 4 = 0")
    case True
    then have "4 dvd length out" by (simp add: dvd_eq_mod_eq_0)
    then obtain j where j: "length out = 4 * j" by (auto elim: dvdE)
    with "1.prems" have "j = k" by simp
    then show ?thesis using True j by (simp add: enc_pad.simps [of out_len out])
  next
    case False
    then have "length out \<noteq> 4 * k" by auto
    with "1.prems" have lt: "length out < 4 * k" by simp
    with "1.prems" have nf: "\<not> out_len \<le> length out" by simp
    have "\<exists>out'. enc_pad out_len (out @ ''='') = Some out' \<and> length out' = 4 * k"
      using "1.prems" lt by (intro "1.IH" [OF False nf]) simp_all
    then show ?thesis using False nf by (simp add: enc_pad.simps [of out_len out])
  qed
qed

lemma base64_encode_total:
  assumes "4 * ((length xs + 2) div 3) < n"
  shows "\<exists>out. base64_encode xs n = Some out \<and> length out = 4 * ((length xs + 2) div 3)"
proof -
  have "6 * ((length xs + 2) div 3) \<ge> 2 * length xs"
    by (cases "length xs" rule: three_cases) (simp_all add: third_up)
  then have "6 * length ([]::string) + 0 + 8 * length xs \<le> 6 * n + 5" using assms by simp
  from enc_loop_total [OF _ this, of 0] obtain v r out where
    l: "enc_loop n xs 0 0 [] = Some (v, r, out)" and r: "r < 6"
    and lo: "6 * length out + r = 8 * length xs" by auto
  define out1 where "out1 = (if r \<noteq> 0
     then out @ [ENCODEMAP ! unat (push_bit (6 - r) v AND 63)] else out)"
  let ?k = "(length xs + 2) div 3"
  from sextet_count [OF lo r]
  have k: "length out1 \<le> 4 * ?k \<and> 4 * ?k < length out1 + 4 \<and> (r \<noteq> 0 \<longrightarrow> length out < 4 * ?k)"
    by (auto simp add: out1_def third_up)
  then have "\<exists>out2. enc_pad n out1 = Some out2 \<and> length out2 = 4 * ?k"
    using assms by (intro enc_pad_total) simp_all
  then obtain out2 where pd: "enc_pad n out1 = Some out2" and lo2: "length out2 = 4 * ?k"
    by blast
  show ?thesis
  proof (cases "r = 0")
    case True
    then have "out1 = out" by (simp add: out1_def)
    then show ?thesis using True l pd lo2 assms by (simp add: base64_encode_def)
  next
    case False
    then have "out1 = out @ [ENCODEMAP ! unat (push_bit (6 - r) v AND 63)]"
      by (simp add: out1_def)
    moreover have "\<not> n \<le> length out" using k False assms by simp
    ultimately show ?thesis using False l pd lo2 assms by (simp add: base64_encode_def)
  qed
qed


subsection \<open>A larger output buffer does not change the Base64 encoding\<close>

lemma enc_emit_mono:
  "enc_emit n v r out = Some x \<Longrightarrow> n \<le> m \<Longrightarrow> enc_emit m v r out = Some x"
proof (induction n v r out rule: enc_emit.induct)
  case (1 out_len v rem out)
  show ?case
  proof (cases "6 \<le> rem")
    case False
    then show ?thesis using "1.prems"
      by (simp add: enc_emit.simps [of out_len v rem out] enc_emit.simps [of m v rem out])
  next
    case True
    with "1.prems" have nf: "\<not> out_len \<le> length out"
      by (auto simp add: enc_emit.simps [of out_len v rem out])
    then have nf': "\<not> m \<le> length out" using "1.prems" by simp
    have "enc_emit m v (rem - 6) (out @ [ENCODEMAP ! unat (drop_bit (rem - 6) v AND 63)]) = Some x"
      using "1.prems" True nf
      by (intro "1.IH" [OF True nf]) (simp_all add: enc_emit.simps [of out_len v rem out])
    then show ?thesis using True nf' by (simp add: enc_emit.simps [of m v rem out])
  qed
qed

lemma enc_loop_mono:
  "enc_loop n xs v r out = Some x \<Longrightarrow> n \<le> m \<Longrightarrow> enc_loop m xs v r out = Some x"
proof (induction xs arbitrary: v r out)
  case Nil
  then show ?case by simp
next
  case (Cons ch xs)
  let ?v = "push_bit 8 v OR ucast ch"
  from Cons.prems obtain r1 out1 where e: "enc_emit n ?v (r + 8) out = Some (r1, out1)"
    and l: "enc_loop n xs ?v r1 out1 = Some x"
    by (auto simp add: Let_def split: option.splits)
  from enc_emit_mono [OF e Cons.prems(2)] Cons.IH [OF l Cons.prems(2)]
  show ?case by (simp add: Let_def)
qed

lemma enc_pad_mono:
  "enc_pad n out = Some x \<Longrightarrow> n \<le> m \<Longrightarrow> enc_pad m out = Some x"
proof (induction n out rule: enc_pad.induct)
  case (1 out_len out)
  show ?case
  proof (cases "length out mod 4 = 0")
    case True
    then show ?thesis using "1.prems"
      by (simp add: enc_pad.simps [of out_len out] enc_pad.simps [of m x])
  next
    case False
    with "1.prems" have nf: "\<not> out_len \<le> length out"
      by (auto simp add: enc_pad.simps [of out_len out])
    then have nf': "\<not> m \<le> length out" using "1.prems" by simp
    have "enc_pad m (out @ ''='') = Some x"
      using "1.prems" False nf
      by (intro "1.IH" [OF False nf]) (simp_all add: enc_pad.simps [of out_len out])
    then show ?thesis using False nf' by (simp add: enc_pad.simps [of m out])
  qed
qed

lemma base64_encode_mono:
  assumes "base64_encode xs n = Some x" "n \<le> m"
  shows "base64_encode xs m = Some x"
proof -
  from assms(1) obtain v r out where l: "enc_loop n xs 0 0 [] = Some (v, r, out)"
    by (auto simp add: base64_encode_def split: option.splits)
  define out1 where "out1 = (if r \<noteq> 0
     then out @ [ENCODEMAP ! unat (push_bit (6 - r) v AND 63)] else out)"
  from assms(1) l have t: "r \<noteq> 0 \<longrightarrow> \<not> n \<le> length out"
    by (auto simp add: base64_encode_def split: option.splits if_splits)
  from assms(1) l t have p: "enc_pad n out1 = Some x" and f: "\<not> n \<le> length x"
    by (auto simp add: base64_encode_def out1_def split: option.splits if_splits)
  from enc_loop_mono [OF l assms(2)] enc_pad_mono [OF p assms(2)] t f assms(2)
  show ?thesis by (auto simp add: base64_encode_def out1_def)
qed


subsection \<open>Evaluating the accept key of the RFC 6455 example\<close>

lemma upt80: "[0..<80] = 0 # 1 # [2..<80]"
  by (simp add: upt_conv_Cons)

text \<open>Forms of the definitions that evaluate their arguments first.\<close>

definition round_fin :: "nat \<Rightarrow> u32 \<Rightarrow> u32 \<Rightarrow> u32 \<Rightarrow> u32 \<Rightarrow> u32 \<Rightarrow> u32 list
    \<Rightarrow> u32 \<times> u32 \<times> u32 \<times> u32 \<times> u32 \<times> u32 list" where
  "round_fin i a b c d e buf1 =
     (take_bit 32
        ((if i < 20 then (d XOR (b AND (c XOR d))) + 0x5A827999
          else if i < 40 then (b XOR c XOR d) + 0x6ED9EBA1
          else if i < 60 then ((b AND c) OR (d AND (b OR c))) + 0x8F1BBCDC
          else (b XOR c XOR d) + 0xCA62C1D6) + (sha1_rol32 a 5 + e + buf1 ! (i mod 16))),
      a, take_bit 32 (sha1_rol32 b 30), c, d, buf1)"

lemma sha1_round_eval:
  "sha1_round i (a, b, c, d, e, buf) =
     round_fin i a b c d e
       (if 16 \<le> i then
          buf[i mod 16 :=
            take_bit 32 (sha1_rol32 (buf ! ((i + 13) mod 16) XOR buf ! ((i + 8) mod 16) XOR
                        buf ! ((i + 2) mod 16) XOR buf ! (i mod 16)) 1)]
        else buf)"
  by (simp add: sha1_round.simps round_fin_def take_bit_word_eq_self Let_def)

definition block_fin :: "sha1hash \<Rightarrow> u32 \<times> u32 \<times> u32 \<times> u32 \<times> u32 \<times> u32 list \<Rightarrow> sha1hash" where
  "block_fin s r = (case r of (a, b, c, d, e, buf1) \<Rightarrow>
      s\<lparr>sha_buffer := buf1,
        sha_state := [take_bit 32 (sha_state s ! 0 + a), take_bit 32 (sha_state s ! 1 + b),
                      take_bit 32 (sha_state s ! 2 + c), take_bit 32 (sha_state s ! 3 + d),
                      take_bit 32 (sha_state s ! 4 + e)],
        buffer_offset := 0\<rparr>)"

definition add_fin :: "sha1hash \<Rightarrow> u32 list \<Rightarrow> u8 \<Rightarrow> sha1hash" where
  "add_fin s buf off =
     (if off = 64 then
        block_fin s (fold sha1_round [0..<80]
                   (sha_state s ! 0, sha_state s ! 1, sha_state s ! 2, sha_state s ! 3,
                    sha_state s ! 4, buf))
      else s\<lparr>sha_buffer := buf, buffer_offset := off\<rparr>)"

lemma sha1_add_eval:
  "sha1_add s data =
     add_fin s ((sha_buffer s)[unat (buffer_offset s) div 4 :=
         take_bit 32 ((sha_buffer s ! (unat (buffer_offset s) div 4)
                        AND NOT (push_bit (8 * (3 - unat (buffer_offset s) mod 4)) 0xFF))
                OR push_bit (8 * (3 - unat (buffer_offset s) mod 4)) (ucast data))])
       (buffer_offset s + 1)"
  by (simp add: sha1_add_put put_byte_def add_fin_def block_fin_def take_bit_word_eq_self Let_def
      split: prod.splits)

definition final_fin :: "sha1hash \<Rightarrow> sha1hash" where
  "final_fin s2 = 
      sha1_add (sha1_add (sha1_add (sha1_add (sha1_add s2 
        (ucast (drop_bit 29 (bytes_hashed s2))))
        (ucast (drop_bit 21 (bytes_hashed s2))))
        (ucast (drop_bit 13 (bytes_hashed s2))))
        (ucast (drop_bit 5 (bytes_hashed s2))))
        (ucast (push_bit 3 (bytes_hashed s2)))"

lemma bytes_hashed_sha1_add: "bytes_hashed (sha1_add s d) = bytes_hashed s"
  by (simp add: sha1_add_def Let_def split: prod.splits)

lemma sha1_final_eval:
  "sha1_final s = final_fin (sha1_add (sha1_add (sha1_add (sha1_pad (sha1_add s 0x80)) 0) 0) 0)"
  by (simp add: sha1_final_def final_fin_def Let_def bytes_hashed_sha1_add)


definition enc_loop_fin :: "nat \<Rightarrow> u8 list \<Rightarrow> u32 \<Rightarrow> nat \<Rightarrow> string \<Rightarrow> (u32 \<times> nat \<times> string) option" where
  "enc_loop_fin out_len rest v' rem out =
     (case enc_emit out_len v' (rem + 8) out of
        None \<Rightarrow> None
      | Some (rem', out') \<Rightarrow> enc_loop out_len rest v' rem' out')"

lemma enc_loop_eval:
  "enc_loop out_len (ch # rest) v rem out =
     enc_loop_fin out_len rest (take_bit 32 (push_bit 8 v OR ucast ch)) rem out"
  by (simp add: enc_loop_fin_def Let_def take_bit_word_eq_self)

lemma test_vector_hashed:
  "fold (\<lambda>b s. sha1_hashbyte s b)
     (map of_char ''dGhlIHNhbXBsZSBub25jZQ=='' @ map of_char NN_WS_HANDSHAKE_MAGIC_GUID)
     (sha1_init False
       \<lparr>sha_buffer = [0, 0, 0, 0, 0, 0, 0, 0, 0, 0, 0, 0, 0, 0, 0, 0], sha_state = [],
       bytes_hashed = 0, buffer_offset = 0, is_little_endian = False\<rparr>) =
   \<lparr>sha_buffer =
    [1682401388, 1229475432, 1649951347, 1515405941, 1647457642, 1515273533,
     842348613, 1095123253, 759511345, 875377719, 1145122105, 893600045,
     1127563586, 809780024, 893530417, 0],
    sha_state = [1732584193, 4023233417, 2562383102, 271733878, 3285377520],
    bytes_hashed = 60, buffer_offset = 60, is_little_endian = False\<rparr>"
  by (simp add: sha1_hashbyte_def sha1_add_eval add_fin_def sha1_init_def
      NN_WS_HANDSHAKE_MAGIC_GUID_def)

lemma test_vector_block1:
  "sha1_pad (sha1_add
     \<lparr>sha_buffer =
    [1682401388, 1229475432, 1649951347, 1515405941, 1647457642, 1515273533,
     842348613, 1095123253, 759511345, 875377719, 1145122105, 893600045,
     1127563586, 809780024, 893530417, 0],
    sha_state = [1732584193, 4023233417, 2562383102, 271733878, 3285377520],
    bytes_hashed = 60, buffer_offset = 60, is_little_endian = False\<rparr> 0x80) =
   \<lparr>sha_buffer =
    [0, 0, 0, 0, 0, 0, 0, 0, 0, 0, 0, 0, 0, 0, 124912530, 4282382342],
    sha_state =
      [1540323111, 1931952490, 3195796473, 1517820024, 1581688034],
    bytes_hashed = 60, buffer_offset = 56, is_little_endian = False\<rparr>"
  by (simp add: sha1_pad.simps sha1_add_eval add_fin_def block_fin_def upt80 sha1_round_eval
      round_fin_def sha1_rol32_def)

lemma test_vector_block2:
  "final_fin (sha1_add (sha1_add (sha1_add
     \<lparr>sha_buffer =
    [0, 0, 0, 0, 0, 0, 0, 0, 0, 0, 0, 0, 0, 0, 124912530, 4282382342],
    sha_state =
      [1540323111, 1931952490, 3195796473, 1517820024, 1581688034],
    bytes_hashed = 60, buffer_offset = 56, is_little_endian = False\<rparr> 0) 0) 0) =
   \<lparr>sha_buffer =
    [0, 13369344, 62976000, 4423680, 0, 126812160, 16711680, 52862464,
     251658240, 15790080, 3357696, 520062976, 0, 213420032, 1006694400,
     67783168],
    sha_state =
      [3011137324, 3227668246, 2432058886, 3476576581, 2998846698],
    bytes_hashed = 60, buffer_offset = 0, is_little_endian = False\<rparr>"
  by (simp add: final_fin_def sha1_add_eval add_fin_def block_fin_def upt80 sha1_round_eval
      round_fin_def sha1_rol32_def)

lemma test_vector_digest:
  "sha1_result
     \<lparr>sha_buffer =
    [1682401388, 1229475432, 1649951347, 1515405941, 1647457642, 1515273533,
     842348613, 1095123253, 759511345, 875377719, 1145122105, 893600045,
     1127563586, 809780024, 893530417, 0],
    sha_state = [1732584193, 4023233417, 2562383102, 271733878, 3285377520],
    bytes_hashed = 60, buffer_offset = 60, is_little_endian = False\<rparr> =
   [179, 122, 79, 44, 192, 98, 79, 22, 144, 246, 70, 6, 207, 56, 89, 69, 178, 190, 196, 234]"
  by (simp add: sha1_result_final sha1_final_eval test_vector_block1 test_vector_block2
      bytes_of_u32_def)

lemma test_vector_base64:
  "base64_encode [179, 122, 79, 44, 192, 98, 79, 22, 144, 246, 70, 6, 207, 56, 89, 69, 178, 190, 196, 234] 29 = Some ''s3pPLMBiTxaQ9kYGzzhZRbK+xOo=''"
  by (simp add: base64_encode_def enc_loop_eval enc_loop_fin_def enc_emit.simps enc_pad.simps
      ENCODEMAP_def)

lemma test_vector_zero:
  "nn_ws_handshake_hash_key False
     \<lparr>sha_buffer = [0, 0, 0, 0, 0, 0, 0, 0, 0, 0, 0, 0, 0, 0, 0, 0], sha_state = [],
       bytes_hashed = 0, buffer_offset = 0, is_little_endian = False\<rparr>
     (map of_char ''dGhlIHNhbXBsZSBub25jZQ=='') 29 = Some ''s3pPLMBiTxaQ9kYGzzhZRbK+xOo=''"
  unfolding nn_ws_handshake_hash_key_def Let_def fold_append [symmetric, THEN fun_cong, unfolded o_apply]
  by (simp only: test_vector_hashed test_vector_digest test_vector_base64)

subsection \<open>SHA-1 as the standard defines it, and the hasher\<close>

text \<open>
  The specification names the hash function, SHA-1. This is SHA-1 as the standard (FIPS 180-4)
  defines it, on a message of whole bytes: the functions \<open>f\<^sub>t\<close> (\<open>Ch\<close>, \<open>Parity\<close>, \<open>Maj\<close>) and
  the constants \<open>K\<^sub>t\<close>, the message schedule of a block of 16 words, the 80 steps on the
  working variables, the padding with the bit 1, zeros and the 64-bit length in bits, the
  parsing into blocks of 16 big-endian words, and the digest, the five words of the final
  hash value, big-endian.
\<close>

definition fips_f :: "nat \<Rightarrow> u32 \<Rightarrow> u32 \<Rightarrow> u32 \<Rightarrow> u32" where
  "fips_f t x y z =
     (if t < 20 then (x AND y) XOR (NOT x AND z)
      else if t < 40 then x XOR y XOR z
      else if t < 60 then (x AND y) XOR (x AND z) XOR (y AND z)
      else x XOR y XOR z)"

definition fips_K :: "nat \<Rightarrow> u32" where
  "fips_K t =
     (if t < 20 then 0x5a827999
      else if t < 40 then 0x6ed9eba1
      else if t < 60 then 0x8f1bbcdc
      else 0xca62c1d6)"

definition fips_W :: "u32 list \<Rightarrow> u32 list" where
  "fips_W M =
     fold (\<lambda>t W. W @ [word_rotl 1 (W ! (t - 3) XOR W ! (t - 8) XOR W ! (t - 14) XOR W ! (t - 16))])
       [16..<80] M"

fun fips_step :: "u32 list \<Rightarrow> nat \<Rightarrow> u32 \<times> u32 \<times> u32 \<times> u32 \<times> u32 \<Rightarrow> u32 \<times> u32 \<times> u32 \<times> u32 \<times> u32" where
  "fips_step W t (a, b, c, d, e) =
     (word_rotl 5 a + fips_f t b c d + e + fips_K t + W ! t, a, word_rotl 30 b, c, d)"

definition fips_block :: "u32 list \<Rightarrow> u32 list \<Rightarrow> u32 list" where
  "fips_block H M =
     (case fold (fips_step (fips_W M)) [0..<80] (H ! 0, H ! 1, H ! 2, H ! 3, H ! 4) of
        (a, b, c, d, e) \<Rightarrow> [H ! 0 + a, H ! 1 + b, H ! 2 + c, H ! 3 + d, H ! 4 + e])"

lemma rol_rotl:
  assumes "0 < k" "k < 32"
  shows "sha1_rol32 x k = word_rotl k x"
proof (rule bit_word_eqI)
  fix n assume "n < LENGTH(32)"
  then have n: "n < 32" by simp
  show "bit (sha1_rol32 x k) n = bit (word_rotl k x) n"
  proof (cases "k \<le> n")
    case True
    then obtain j where j: "n = k + j" using le_Suc_ex by blast
    have "n + (32 - k) = j + 32" using assms j by simp
    then have m: "(n + (32 - k)) mod 32 = j" using n j by simp
    have "\<not> bit x (32 - k + n)"
    proof
      assume "bit x (32 - k + n)"
      then have "32 - k + n < 32" using bit_imp_le_length [of x "32 - k + n"] by simp
      with True assms show False by simp
    qed
    with n m j assms show ?thesis
      by (simp add: sha1_rol32_def bit_simps bit_word_rotl_iff)
  next
    case False
    then have "n + (32 - k) < 32" using assms by simp
    then have m: "(n + (32 - k)) mod 32 = 32 - k + n" by simp
    with n False assms show ?thesis
      by (simp add: sha1_rol32_def bit_simps bit_word_rotl_iff)
  qed
qed

lemma ch_eq: "(d XOR (b AND (c XOR d))) = (b AND c) XOR (NOT b AND d)" for b c d :: u32
  by (rule bit_eqI) (auto simp add: bit_simps)

lemma maj_eq: "((b AND c) OR (d AND (b OR c))) = (b AND c) XOR (b AND d) XOR (c AND d)" for b c d :: u32
  by (rule bit_eqI) (auto simp add: bit_simps)

text \<open>The schedule up to \<open>n\<close>, for the proofs.\<close>

definition fips_Wn :: "u32 list \<Rightarrow> nat \<Rightarrow> u32 list" where
  "fips_Wn M n =
     fold (\<lambda>t W. W @ [word_rotl 1 (W ! (t - 3) XOR W ! (t - 8) XOR W ! (t - 14) XOR W ! (t - 16))])
       [16..<n] M"

lemma fips_Wn_16: "fips_Wn M 16 = M"
  by (simp add: fips_Wn_def)

lemma fips_Wn_Suc:
  "16 \<le> n \<Longrightarrow> fips_Wn M (Suc n) =
     fips_Wn M n @ [word_rotl 1 (fips_Wn M n ! (n - 3) XOR fips_Wn M n ! (n - 8) XOR
                                 fips_Wn M n ! (n - 14) XOR fips_Wn M n ! (n - 16))]"
  by (simp add: fips_Wn_def)

lemma length_fips_Wn:
  assumes "length M = 16"
  shows "16 \<le> n \<Longrightarrow> length (fips_Wn M n) = n"
proof (induction n rule: dec_induct)
  case base
  show ?case using assms by (simp add: fips_Wn_16)
next
  case (step n)
  then show ?case by (simp add: fips_Wn_Suc)
qed

lemma fips_Wn_nth:
  assumes "length M = 16" "16 \<le> n" "t < n"
  shows "n \<le> m \<Longrightarrow> fips_Wn M m ! t = fips_Wn M n ! t"
proof (induction m rule: dec_induct)
  case base
  show ?case ..
next
  case (step m)
  from step(1) assms(2) have "16 \<le> m" by simp
  with step assms show ?case
    by (simp add: fips_Wn_Suc nth_append length_fips_Wn)
qed

lemma fips_W_Wn: "fips_W M = fips_Wn M 80"
  unfolding fips_W_def fips_Wn_def ..

lemma fips_W_first: "length M = 16 \<Longrightarrow> t < 16 \<Longrightarrow> fips_W M ! t = M ! t"
  using fips_Wn_nth [of M 16 t 80] by (simp add: fips_W_Wn fips_Wn_16)

lemma fips_W_rec:
  assumes "length M = 16" "16 \<le> t" "t < 80"
  shows "fips_W M ! t =
     word_rotl 1 (fips_W M ! (t - 3) XOR fips_W M ! (t - 8) XOR fips_W M ! (t - 14) XOR
                  fips_W M ! (t - 16))"
proof -
  have a: "fips_W M ! t = fips_Wn M (Suc t) ! t"
    using fips_Wn_nth [of M "Suc t" t 80] assms by (simp add: fips_W_Wn)
  have b: "fips_W M ! j = fips_Wn M t ! j" if "j < t" for j
    using fips_Wn_nth [of M t j 80] assms that by (simp add: fips_W_Wn)
  from assms have c: "t - 3 < t" "t - 8 < t" "t - 14 < t" "t - 16 < t" by simp_all
  show ?thesis
    using assms by (simp add: a fips_Wn_Suc nth_append length_fips_Wn b [OF c(1)] b [OF c(2)]
        b [OF c(3)] b [OF c(4)])
qed

lemma mod16_distinct: "t < n \<Longrightarrow> n < t + 16 \<Longrightarrow> t mod 16 \<noteq> n mod (16::nat)"
proof
  assume a: "t < n" "n < t + 16" "t mod 16 = n mod 16"
  then have "16 dvd n - t" using mod_eq_dvd_iff_nat [of t n 16] by simp
  then obtain k where "n - t = 16 * k" ..
  with a(1,2) show False by (cases k) simp_all
qed

lemma mod16_back: "k \<le> 16 \<Longrightarrow> k \<le> n \<Longrightarrow> (n + (16 - k)) mod 16 = (n - k) mod (16::nat)"
proof -
  assume "k \<le> 16" "k \<le> n"
  then have "n + (16 - k) = (n - k) + 16" by simp
  then show ?thesis by (simp only: mod_add_self2)
qed

lemma sha1_rounds:
  assumes "length M = 16" "n \<le> 80"
  shows "\<exists>a b c d e buf.
     fold sha1_round [0..<n] (a0, b0, c0, d0, e0, M) = (a, b, c, d, e, buf) \<and>
     fold (fips_step (fips_W M)) [0..<n] (a0, b0, c0, d0, e0) = (a, b, c, d, e) \<and>
     length buf = 16 \<and>
     (\<forall>t. t < max n 16 \<longrightarrow> max n 16 \<le> t + 16 \<longrightarrow> buf ! (t mod 16) = fips_W M ! t)"
  using assms(2)
proof (induction n)
  case 0
  show ?case using assms(1) by (simp add: fips_W_first)
next
  case (Suc n)
  then obtain a b c d e buf where
    r: "fold sha1_round [0..<n] (a0, b0, c0, d0, e0, M) = (a, b, c, d, e, buf)" and
    f: "fold (fips_step (fips_W M)) [0..<n] (a0, b0, c0, d0, e0) = (a, b, c, d, e)" and
    l: "length buf = 16" and
    w: "\<And>t. t < max n 16 \<Longrightarrow> max n 16 \<le> t + 16 \<Longrightarrow> buf ! (t mod 16) = fips_W M ! t"
    by auto
  let ?W = "fips_W M"
  define buf1 where "buf1 = (if 16 \<le> n then
               buf[n mod 16 :=
                 sha1_rol32 (buf ! ((n + 13) mod 16) XOR buf ! ((n + 8) mod 16) XOR
                             buf ! ((n + 2) mod 16) XOR buf ! (n mod 16)) 1]
             else buf)"
  have l1: "length buf1 = 16" by (simp add: buf1_def l)
  have n80: "n < 80" using Suc.prems by simp
  have cur: "buf1 ! (n mod 16) = ?W ! n"
  proof (cases "16 \<le> n")
    case False
    then show ?thesis using w [of n] by (simp add: buf1_def)
  next
    case True
    have "buf ! ((n + 13) mod 16) = ?W ! (n - 3)"
      using w [of "n - 3"] True mod16_back [of 3 n] by simp
    moreover have "buf ! ((n + 8) mod 16) = ?W ! (n - 8)"
      using w [of "n - 8"] True mod16_back [of 8 n] by simp
    moreover have "buf ! ((n + 2) mod 16) = ?W ! (n - 14)"
      using w [of "n - 14"] True mod16_back [of 14 n] by simp
    moreover have "buf ! (n mod 16) = ?W ! (n - 16)"
      using w [of "n - 16"] True mod16_back [of 16 n] by simp
    ultimately show ?thesis
      using True n80 l by (simp add: buf1_def rol_rotl fips_W_rec [OF assms(1) True n80])
  qed
  have win: "buf1 ! (t mod 16) = ?W ! t" if "t < max (Suc n) 16" "max (Suc n) 16 \<le> t + 16" for t
  proof (cases "t = n")
    case True
    with cur show ?thesis by simp
  next
    case False
    show ?thesis
    proof (cases "16 \<le> n")
      case f: False
      with that w [of t] show ?thesis by (simp add: buf1_def)
    next
      case True
      with that False have t: "t < n" "n < t + 16" by simp_all
      from mod16_distinct [OF t] have "buf1 ! (t mod 16) = buf ! (t mod 16)"
        by (simp add: buf1_def)
      with w [of t] t True show ?thesis by simp
    qed
  qed
  have step: "sha1_round n (a, b, c, d, e, buf) =
      (word_rotl 5 a + fips_f n b c d + e + fips_K n + ?W ! n, a, word_rotl 30 b, c, d, buf1)"
    by (simp add: sha1_round.simps Let_def buf1_def [symmetric] cur fips_f_def fips_K_def
        rol_rotl ch_eq maj_eq)
  show ?case
    using r f l1 win by (simp add: step)
qed

lemma sha1_compress:
  assumes "length M = 16"
  shows "fold sha1_round [0..<80] (H ! 0, H ! 1, H ! 2, H ! 3, H ! 4, M) = (a, b, c, d, e, buf) \<Longrightarrow>
     fips_block H M = [H ! 0 + a, H ! 1 + b, H ! 2 + c, H ! 3 + d, H ! 4 + e]"
  using sha1_rounds [OF assms, of 80 "H ! 0" "H ! 1" "H ! 2" "H ! 3" "H ! 4"]
  by (auto simp add: fips_block_def)

definition be32 :: "u8 list \<Rightarrow> u32" where
  "be32 bs = push_bit 24 (ucast (bs ! 0)) OR push_bit 16 (ucast (bs ! 1)) OR
             push_bit 8 (ucast (bs ! 2)) OR ucast (bs ! 3)"

definition fips_words :: "u8 list \<Rightarrow> u32 list" where
  "fips_words bs = map (\<lambda>i. be32 (take 4 (drop (4 * i) bs))) [0..<length bs div 4]"

definition fips_blocks :: "u8 list \<Rightarrow> u32 list list" where
  "fips_blocks bs = map (\<lambda>i. fips_words (take 64 (drop (64 * i) bs))) [0..<length bs div 64]"

definition fips_H0 :: "u32 list" where
  "fips_H0 = [0x67452301, 0xefcdab89, 0x98badcfe, 0x10325476, 0xc3d2e1f0]"

text \<open>The byte at address \<open>j\<close> of the block buffer, in the byte order that \<open>put_byte\<close>
  writes.\<close>

definition get_byte :: "u32 list \<Rightarrow> nat \<Rightarrow> u8" where
  "get_byte buf j = ucast (drop_bit (8 * (3 - j mod 4)) (buf ! (j div 4)))"

lemma byte_same:
  assumes "k < 4"
  shows "ucast (drop_bit (8 * k) ((w AND NOT (push_bit (8 * k) 0xFF)) OR push_bit (8 * k) (ucast (d::u8))) :: u32) = d"
proof (rule bit_word_eqI)
  fix n assume "n < LENGTH(8)"
  then have n: "n < 8" by simp
  with assms have "8 * k + n < 32" by simp
  with n show "bit (ucast (drop_bit (8 * k) ((w AND NOT (push_bit (8 * k) 0xFF)) OR
      push_bit (8 * k) (ucast d))) :: u8) n = bit d n"
    by (simp add: bit_simps bit_255 del: bit_numeral_word_iff)
qed

lemma byte_other:
  assumes "k < 4" "j < 4" "j \<noteq> k"
  shows "(ucast (drop_bit (8 * j) ((w AND NOT (push_bit (8 * k) 0xFF)) OR push_bit (8 * k) (ucast (d::u8))) :: u32) :: u8)
     = ucast (drop_bit (8 * j) w)"
proof (rule bit_word_eqI)
  fix n assume "n < LENGTH(8)"
  then have n: "n < 8" by simp
  from assms n have o: "8 * j + n < 8 * k \<or> 8 * k + 8 \<le> 8 * j + n" by arith
  from n show "bit (ucast (drop_bit (8 * j) ((w AND NOT (push_bit (8 * k) 0xFF)) OR
        push_bit (8 * k) (ucast d))) :: u8) n
      = bit (ucast (drop_bit (8 * j) w) :: u8) n"
    using o by (auto simp add: bit_simps bit_255 simp del: bit_numeral_word_iff dest: bit_imp_le_length)
qed

lemma get_put_same:
  assumes "off div 4 < length buf"
  shows "get_byte (put_byte buf off d) off = d"
  using assms byte_same [of "3 - off mod 4"]
  by (simp add: get_byte_def put_byte_def)

lemma get_put_other:
  assumes "j \<noteq> off"
  shows "get_byte (put_byte buf off d) j = get_byte buf j"
proof (cases "j div 4 = off div 4")
  case False
  then show ?thesis by (simp add: get_byte_def put_byte_def)
next
  case True
  show ?thesis
  proof (cases "off div 4 < length buf")
    case False
    then show ?thesis by (simp add: get_byte_def put_byte_def list_update_beyond)
  next
    case l: True
    have "j mod 4 \<noteq> off mod 4"
    proof
      assume "j mod 4 = off mod 4"
      with True have "j = off" by (metis div_mult_mod_eq)
      with assms show False by simp
    qed
    then have "3 - j mod 4 \<noteq> 3 - off mod 4" by arith
    with byte_other [of "3 - off mod 4" "3 - j mod 4"] True l show ?thesis
      by (simp add: get_byte_def put_byte_def)
  qed
qed

lemma be32_bytes:
  "be32 [ucast (drop_bit 24 w), ucast (drop_bit 16 w), ucast (drop_bit 8 w), ucast w] = (w::u32)"
proof (rule bit_word_eqI)
  fix n assume "n < LENGTH(32)"
  then have n: "n < 32" by simp
  consider "n < 8" | "8 \<le> n" "n < 16" | "16 \<le> n" "n < 24" | "24 \<le> n" by linarith
  then show "bit (be32 [ucast (drop_bit 24 w), ucast (drop_bit 16 w), ucast (drop_bit 8 w),
      ucast w :: u8]) n = bit w n"
  proof cases
    case 1
    then show ?thesis by (simp add: be32_def bit_simps)
  next
    case 2
    with n show ?thesis by (auto simp add: be32_def bit_simps)
  next
    case 3
    with n show ?thesis by (auto simp add: be32_def bit_simps)
  next
    case 4
    with n show ?thesis by (auto simp add: be32_def bit_simps)
  qed
qed

text \<open>
  The state of the hasher after the bytes \<open>xs\<close> were added: its hash value is that of the whole
  blocks of \<open>xs\<close>, and its block buffer holds the bytes after them.
\<close>

definition pending :: "sha1hash \<Rightarrow> u8 list \<Rightarrow> bool" where
  "pending s p \<longleftrightarrow>
     unat (buffer_offset s) = length p \<and> length p < 64 \<and> length (sha_buffer s) = 16 \<and>
     (\<forall>j<length p. get_byte (sha_buffer s) j = p ! j)"

definition absorbed :: "u8 list \<Rightarrow> sha1hash \<Rightarrow> bool" where
  "absorbed xs s \<longleftrightarrow>
     sha_state s = fold (\<lambda>M H. fips_block H M) (fips_blocks xs) fips_H0 \<and>
     pending s (drop (64 * (length xs div 64)) xs)"

lemma be32_nth: "be32 bs = be32 [bs ! 0, bs ! 1, bs ! 2, bs ! 3]"
  by (simp add: be32_def)

lemma full_words:
  assumes "length buf = 16" "length bs = 64" "\<forall>j<64. get_byte buf j = bs ! j"
  shows "buf = fips_words bs"
proof (rule nth_equalityI)
  show "length buf = length (fips_words bs)" using assms by (simp add: fips_words_def)
next
  fix i assume "i < length buf"
  with assms have i: "i < 16" by simp
  have b: "bs ! (4 * i + k) = ucast (drop_bit (8 * (3 - k)) (buf ! i))" if "k < 4" for k
  proof -
    from that i have "4 * i + k < 64" by simp
    with assms(3) have "get_byte buf (4 * i + k) = bs ! (4 * i + k)" by simp
    moreover from that have "(4 * i + k) div 4 = i" "(4 * i + k) mod 4 = k" by simp_all
    ultimately show ?thesis by (simp add: get_byte_def)
  qed
  from i assms(2) have t: "take 4 (drop (4 * i) bs) ! k = bs ! (4 * i + k)" if "k < 4" for k
    using that by simp
  have "fips_words bs ! i = be32 (take 4 (drop (4 * i) bs))"
    using i assms(2) by (simp add: fips_words_def)
  also have "\<dots> = be32 [bs ! (4 * i + 0), bs ! (4 * i + 1), bs ! (4 * i + 2), bs ! (4 * i + 3)]"
    by (subst be32_nth) (simp only: t [of 0] t [of 1] t [of 2] t [of 3])
  also have "\<dots> = buf ! i"
    using b [of 0] b [of 1] b [of 2] b [of 3] by (simp add: be32_bytes)
  finally show "buf ! i = fips_words bs ! i" by simp
qed

lemma fips_blocks_inside:
  assumes "64 * i + 64 \<le> length xs"
  shows "take 64 (drop (64 * i) (xs @ ys)) = take 64 (drop (64 * i) xs)"
  using assms by simp

lemma fips_blocks_snoc_same:
  assumes "length xs mod 64 \<noteq> 63"
  shows "fips_blocks (xs @ [d]) = fips_blocks xs"
proof -
  let ?q = "length xs div 64" and ?r = "length xs mod 64"
  have "?r < 63" using assms by (simp add: order_less_le Suc_leI)
  then have "length (xs @ [d]) = 64 * ?q + (?r + 1)" "?r + 1 < 64" by simp_all
  from divmod_eq [OF this] have q: "length (xs @ [d]) div 64 = ?q" by simp
  have "take 64 (drop (64 * i) (xs @ [d])) = take 64 (drop (64 * i) xs)" if "i < ?q" for i
  proof (rule fips_blocks_inside)
    from that have "64 * (i + 1) \<le> 64 * ?q" by simp
    also have "\<dots> \<le> length xs" by simp
    finally show "64 * i + 64 \<le> length xs" by simp
  qed
  then show ?thesis unfolding fips_blocks_def q by simp
qed

lemma fips_blocks_snoc_full:
  assumes "length xs mod 64 = 63"
  shows "fips_blocks (xs @ [d]) =
     fips_blocks xs @ [fips_words (drop (64 * (length xs div 64)) xs @ [d])]"
proof -
  let ?q = "length xs div 64"
  have e: "length xs = 64 * ?q + 63" using assms div_mult_mod_eq [of "length xs" 64] by simp
  then have "length (xs @ [d]) = 64 * (?q + 1) + 0" by simp
  from divmod_eq [OF this] have q: "length (xs @ [d]) div 64 = Suc ?q" by simp
  have in1: "take 64 (drop (64 * i) (xs @ [d])) = take 64 (drop (64 * i) xs)" if "i < ?q" for i
  proof (rule fips_blocks_inside)
    from that have "64 * (i + 1) \<le> 64 * ?q" by simp
    also have "\<dots> \<le> length xs" by simp
    finally show "64 * i + 64 \<le> length xs" by simp
  qed
  have last: "take 64 (drop (64 * ?q) (xs @ [d])) = drop (64 * ?q) xs @ [d]"
    using e by simp
  show ?thesis unfolding fips_blocks_def q by (simp add: in1 last)
qed

lemma off_full: "(o8 + 1 = (64::u8)) = (unat o8 = 63)"
proof -
  let ?n = "unat o8"
  have lt: "?n < 256" using unsigned_less [of o8, where ?'a = nat] by simp
  have suc: "unat (o8 + 1) = (?n + 1) mod 256" by (simp add: unat_word_ariths)
  have "(o8 + 1 = 64) = (unat (o8 + 1) = 64)" by (simp add: word_unat_eq_iff)
  also have "\<dots> = (?n = 63)" using lt by (simp add: suc mod_Suc)
  finally show ?thesis .
qed

lemma absorbed_add:
  assumes "absorbed xs s"
  shows "absorbed (xs @ [d]) (sha1_add s d)"
proof -
  let ?q = "length xs div 64" and ?r = "length xs mod 64"
  let ?p = "drop (64 * ?q) xs"
  let ?H = "sha_state s"
  have lp: "length ?p = ?r" by (simp add: minus_mult_div_eq_mod)
  from assms have st: "?H = fold (\<lambda>M H. fips_block H M) (fips_blocks xs) fips_H0"
    and off: "unat (buffer_offset s) = ?r" and lb: "length (sha_buffer s) = 16"
    and bt: "\<And>j. j < ?r \<Longrightarrow> get_byte (sha_buffer s) j = ?p ! j"
    by (simp_all add: absorbed_def pending_def minus_mult_div_eq_mod)
  have r64: "?r < 64" by simp
  let ?buf = "put_byte (sha_buffer s) ?r d"
  have get: "get_byte ?buf j = (?p @ [d]) ! j" if "j \<le> ?r" for j
  proof (cases "j = ?r")
    case True
    then show ?thesis using get_put_same [of ?r "sha_buffer s" d] lb lp by (simp add: nth_append)
  next
    case False
    with that have "j < ?r" by simp
    with bt [of j] get_put_other [of j ?r "sha_buffer s" d] lp show ?thesis
      by (simp add: nth_append)
  qed
  show ?thesis
  proof (cases "?r = 63")
    case False
    then have oo: "buffer_offset s + 1 \<noteq> 64" by (simp add: off_full off)
    have s': "sha1_add s d = s\<lparr>sha_buffer := ?buf, buffer_offset := buffer_offset s + 1\<rparr>"
      using oo by (simp add: sha1_add_put off Let_def)
    have "?r < 63" using False r64 by simp
    then have "length (xs @ [d]) = 64 * ?q + (?r + 1)" "?r + 1 < 64" by simp_all
    from divmod_eq [OF this] have q: "length (xs @ [d]) div 64 = ?q" by simp
    have dr: "drop (64 * ?q) (xs @ [d]) = ?p @ [d]" by simp
    have u: "unat (buffer_offset s + 1) = ?r + 1"
      using \<open>?r < 63\<close> off by (simp add: unat_word_ariths)
    show ?thesis
      unfolding absorbed_def pending_def q dr s'
      using st lb lp u get \<open>?r < 63\<close> by (simp add: fips_blocks_snoc_same [OF False])
  next
    case True
    then have oo: "buffer_offset s + 1 = 64" by (simp add: off_full off)
    obtain a b c d' e buf1 where
      f: "fold sha1_round [0..<80] (?H ! 0, ?H ! 1, ?H ! 2, ?H ! 3, ?H ! 4, ?buf) = (a, b, c, d', e, buf1)"
      by (cases "fold sha1_round [0..<80] (?H ! 0, ?H ! 1, ?H ! 2, ?H ! 3, ?H ! 4, ?buf)") auto
    have s': "sha1_add s d = s\<lparr>sha_buffer := buf1,
        sha_state := [?H ! 0 + a, ?H ! 1 + b, ?H ! 2 + c, ?H ! 3 + d', ?H ! 4 + e],
        buffer_offset := 0\<rparr>"
      using oo f True by (simp add: sha1_add_put off Let_def)
    have l1: "length buf1 = 16" using length_fold_sha1_round [OF f] lb by simp
    have "\<forall>j<64. get_byte ?buf j = (?p @ [d]) ! j" using get True by simp
    from full_words [OF _ _ this] lb lp True have M: "?buf = fips_words (?p @ [d])" by simp
    have lM: "length ?buf = 16" using lb by simp
    from sha1_compress [OF lM f]
    have blk: "fips_block ?H ?buf = [?H ! 0 + a, ?H ! 1 + b, ?H ! 2 + c, ?H ! 3 + d', ?H ! 4 + e]" .
    have e: "length (xs @ [d]) = 64 * (?q + 1) + 0"
      using True div_mult_mod_eq [of "length xs" 64] by simp
    from divmod_eq [OF this] have q: "length (xs @ [d]) div 64 = Suc ?q" by simp
    have dr: "drop (64 * Suc ?q) (xs @ [d]) = []" using e by simp
    show ?thesis
      unfolding absorbed_def pending_def q dr s'
      using l1 by (simp add: fips_blocks_snoc_full [OF True] st [symmetric] M [symmetric] blk)
  qed
qed

definition fips_pad :: "u8 list \<Rightarrow> u8 list" where
  "fips_pad m =
     m @ [0x80] @ replicate ((119 - length m mod 64) mod 64) 0 @
     map (\<lambda>i. of_nat (8 * length m div 256 ^ (7 - i))) [0..<8]"

definition SHA1 :: "u8 list \<Rightarrow> u8 list" where
  "SHA1 m =
     concat (map (\<lambda>w. map (\<lambda>i. ucast (drop_bit (8 * (3 - i)) w)) [0..<4])
       (fold (\<lambda>M H. fips_block H M) (fips_blocks (fips_pad m)) fips_H0))"

lemma absorbed_init:
  "length (sha_buffer hash) = 16 \<Longrightarrow> absorbed [] (sha1_init le hash)"
  by (simp add: absorbed_def pending_def sha1_init_def fips_blocks_def fips_H0_def)

lemma absorbed_bytes_hashed [simp]: "absorbed xs (s\<lparr>bytes_hashed := c\<rparr>) = absorbed xs s"
  by (simp add: absorbed_def pending_def)

lemma absorbed_hashbyte:
  "absorbed xs s \<Longrightarrow> absorbed (xs @ [d]) (sha1_hashbyte s d)"
  unfolding sha1_hashbyte_def by (rule absorbed_add) simp

lemma bytes_hashed_sha1_hashbyte: "bytes_hashed (sha1_hashbyte s d) = bytes_hashed s + 1"
  by (simp add: sha1_hashbyte_def bytes_hashed_sha1_add)

lemma absorbed_fold_hashbyte:
  "absorbed xs s \<Longrightarrow>
   absorbed (xs @ ys) (fold (\<lambda>b s. sha1_hashbyte s b) ys s) \<and>
   bytes_hashed (fold (\<lambda>b s. sha1_hashbyte s b) ys s) = bytes_hashed s + of_nat (length ys)"
proof (induction ys arbitrary: xs s)
  case Nil
  then show ?case by simp
next
  case (Cons y ys)
  from Cons.IH [OF absorbed_hashbyte [OF Cons.prems, of y]]
  show ?case by (simp add: bytes_hashed_sha1_hashbyte)
qed

lemma absorbed_offset:
  assumes "absorbed xs s"
  shows "unat (buffer_offset s) = length xs mod 64"
  using assms by (simp add: absorbed_def pending_def minus_mult_div_eq_mod)

lemma absorbed_sha1_pad:
  "absorbed xs s \<Longrightarrow> (length xs + k) mod 64 = 56 \<Longrightarrow>
   (\<forall>j<k. (length xs + j) mod 64 \<noteq> 56) \<Longrightarrow>
   absorbed (xs @ replicate k 0) (sha1_pad s) \<and> bytes_hashed (sha1_pad s) = bytes_hashed s"
proof (induction k arbitrary: xs s)
  case 0
  then have "unat (buffer_offset s) = 56" using absorbed_offset [of xs s] by simp
  then have "buffer_offset s = 56" by (simp add: word_unat_eq_iff)
  with 0 show ?case by (simp add: sha1_pad.simps [of s])
next
  case (Suc k)
  from Suc.prems(3) have "length xs mod 64 \<noteq> 56" by force
  then have "unat (buffer_offset s) \<noteq> 56" using absorbed_offset [OF Suc.prems(1)] by simp
  then have ne: "buffer_offset s \<noteq> 56" by (auto simp add: word_unat_eq_iff)
  have a: "absorbed (xs @ [0]) (sha1_add s 0)" using Suc.prems(1) by (rule absorbed_add)
  have b: "(length (xs @ [0]) + k) mod 64 = 56" using Suc.prems(2) by simp
  have c: "\<forall>j<k. (length (xs @ [0]) + j) mod 64 \<noteq> 56"
  proof (intro allI impI)
    fix j assume "j < k"
    then have "Suc j < Suc k" by simp
    with Suc.prems(3) have "(length xs + Suc j) mod 64 \<noteq> 56" by blast
    then show "(length (xs @ [0]) + j) mod 64 \<noteq> 56" by simp
  qed
  from Suc.IH [OF a b c] ne show ?case
    by (simp add: sha1_pad.simps [of s] bytes_hashed_sha1_add replicate_app_Cons_same)
qed

lemma pad_count_aux:
  fixes q r k :: nat
  assumes "r < 64" "k = (119 - r) mod 64"
  shows "(64 * q + r + 1 + k) mod 64 = 56" "\<forall>j<k. (64 * q + r + 1 + j) mod 64 \<noteq> 56"
proof -
  have k: "k = (if r \<le> 55 then 55 - r else 119 - r)"
  proof (cases "r \<le> 55")
    case True
    then have "119 - r = 64 * 1 + (55 - r)" "55 - r < 64" by simp_all
    from divmod_eq [OF this] True show ?thesis by (simp add: assms(2))
  next
    case False
    with assms show ?thesis by simp
  qed
  show "(64 * q + r + 1 + k) mod 64 = 56"
  proof (cases "r \<le> 55")
    case True
    with k have "64 * q + r + 1 + k = 64 * q + 56" by simp
    from divmod_eq [OF this] show ?thesis by simp
  next
    case False
    with k assms(1) have "64 * q + r + 1 + k = 64 * (q + 1) + 56" by simp
    from divmod_eq [OF this] show ?thesis by simp
  qed
  show "\<forall>j<k. (64 * q + r + 1 + j) mod 64 \<noteq> 56"
  proof (intro allI impI)
    fix j assume j: "j < k"
    show "(64 * q + r + 1 + j) mod 64 \<noteq> 56"
    proof (cases "r + 1 + j < 64")
      case True
      have "64 * q + r + 1 + j = 64 * q + (r + 1 + j)" by simp
      from divmod_eq [OF this True] have "(64 * q + r + 1 + j) mod 64 = r + 1 + j" by simp
      with k j show ?thesis by (simp split: if_splits)
    next
      case False
      with k j assms(1) have "64 * q + r + 1 + j = 64 * (q + 1) + (r + 1 + j - 64)"
        "r + 1 + j - 64 < 64" by (simp_all split: if_splits)
      from divmod_eq [OF this] have "(64 * q + r + 1 + j) mod 64 = r + 1 + j - 64" by simp
      with k j assms(1) False show ?thesis by (simp split: if_splits)
    qed
  qed
qed

lemma pad_count:
  fixes n :: nat
  shows "(n + 1 + (119 - n mod 64) mod 64) mod 64 = 56"
    "\<forall>j<(119 - n mod 64) mod 64. (n + 1 + j) mod 64 \<noteq> 56"
  using pad_count_aux [of "n mod 64" "(119 - n mod 64) mod 64" "n div 64"]
  by simp_all

lemma upt_8: "[0..<8] = [0, 1, 2, 3, 4, 5, 6, 7::nat]"
  by code_simp

lemma upt_4: "[0..<4] = [0, 1, 2, 3::nat]"
  by code_simp

lemma ucast_drop_bit_of_nat:
  assumes "n < 4294967296"
  shows "(ucast (drop_bit k (of_nat n :: u32)) :: u8) = of_nat (n div 2 ^ k)"
proof -
  have u: "unat (of_nat n :: u32) = n" using assms by (simp add: unat_of_nat)
  have "unat (drop_bit k (of_nat n :: u32)) = drop_bit k (unat (of_nat n :: u32))"
    by (rule unat_drop_bit_eq)
  also have "\<dots> = n div 2 ^ k" unfolding u by (rule drop_bit_eq_div)
  finally have "(of_nat (unat (drop_bit k (of_nat n :: u32))) :: u8) = of_nat (n div 2 ^ k)"
    by (simp only:)
  then show ?thesis by (simp only: of_nat_unat)
qed

lemma ucast_push_bit_of_nat:
  "(ucast (push_bit 3 (of_nat n :: u32)) :: u8) = of_nat (8 * n)"
proof -
  have "(ucast (push_bit 3 (of_nat n :: u32)) :: u8) = of_nat (unat (push_bit 3 (of_nat n :: u32)))"
    by (simp only: of_nat_unat)
  also have "unat (push_bit 3 (of_nat n :: u32)) = (8 * (n mod 4294967296)) mod 4294967296"
  proof -
    have "unat (push_bit 3 (of_nat n :: u32)) =
        take_bit LENGTH(32) (push_bit 3 (unat (of_nat n :: u32)))"
      by (rule unsigned_push_bit_eq)
    also have "\<dots> = (8 * (n mod 4294967296)) mod 4294967296"
      unfolding unat_of_nat by (simp add: take_bit_eq_mod push_bit_eq_mult mult.commute)
    finally show ?thesis .
  qed
  also have "(of_nat ((8 * (n mod 4294967296)) mod 4294967296) :: u8) = of_nat (8 * n)"
  proof -
    have a: "(8 * (n mod 4294967296)) mod 4294967296 mod 256 = (8 * (n mod 4294967296)) mod 256"
      by (rule mod_mod_cancel) simp
    have "(8 * (n mod 4294967296)) mod 256 = (8 * (n mod 4294967296 mod 256)) mod 256"
      by (simp add: mod_mult_right_eq)
    also have "n mod 4294967296 mod 256 = n mod 256" by (rule mod_mod_cancel) simp
    also have "(8 * (n mod 256)) mod 256 = (8 * n) mod 256" by (simp add: mod_mult_right_eq)
    finally have "take_bit LENGTH(8) ((8 * (n mod 4294967296)) mod 4294967296) =
        take_bit LENGTH(8) (8 * n)"
      by (simp add: take_bit_eq_mod a)
    then show ?thesis unfolding word_of_nat_eq_iff .
  qed
  finally show ?thesis .
qed

lemma length_bytes:
  assumes "n < 4294967296"
  shows "map (\<lambda>i. of_nat (8 * n div 256 ^ (7 - i))) [0..<8] =
    [0, 0, 0, ucast (drop_bit 29 (of_nat n :: u32)), ucast (drop_bit 21 (of_nat n :: u32)),
     ucast (drop_bit 13 (of_nat n :: u32)), ucast (drop_bit 5 (of_nat n :: u32)),
     ucast (push_bit 3 (of_nat n :: u32)) :: u8]"
proof -
  have z: "8 * n div 72057594037927936 = 0" "8 * n div 281474976710656 = 0"
    "8 * n div 1099511627776 = 0"
    using assms by simp_all
  have a: "8 * n div 4294967296 = n div 2 ^ 29"
  proof -
    have "8 * n div (8 * 2 ^ 29) = n div 2 ^ 29" by (rule div_mult_mult1) simp
    then show ?thesis by simp
  qed
  have b: "8 * n div 16777216 = n div 2 ^ 21"
  proof -
    have "8 * n div (8 * 2 ^ 21) = n div 2 ^ 21" by (rule div_mult_mult1) simp
    then show ?thesis by simp
  qed
  have c: "8 * n div 65536 = n div 2 ^ 13"
  proof -
    have "8 * n div (8 * 2 ^ 13) = n div 2 ^ 13" by (rule div_mult_mult1) simp
    then show ?thesis by simp
  qed
  have d: "8 * n div 256 = n div 2 ^ 5"
  proof -
    have "8 * n div (8 * 2 ^ 5) = n div 2 ^ 5" by (rule div_mult_mult1) simp
    then show ?thesis by simp
  qed
  show ?thesis
    unfolding upt_8 ucast_drop_bit_of_nat [OF assms] ucast_push_bit_of_nat
    by (simp add: z a b c d)
qed

lemma SHA1_bytes: "SHA1 m =
  concat (map (bytes_of_u32 False) (fold (\<lambda>M H. fips_block H M) (fips_blocks (fips_pad m)) fips_H0))"
  unfolding SHA1_def upt_4 by (simp add: bytes_of_u32_def cong: map_cong)

lemma sha1_refines:
  assumes "length (sha_buffer hash) = 16" "length m < 4294967296"
  shows "sha1_result (fold (\<lambda>b s. sha1_hashbyte s b) m (sha1_init le hash)) = SHA1 m"
proof -
  let ?s0 = "fold (\<lambda>b s. sha1_hashbyte s b) m (sha1_init le hash)"
  let ?w = "of_nat (length m) :: u32"
  let ?k = "(119 - length m mod 64) mod 64"
  from absorbed_fold_hashbyte [OF absorbed_init [OF assms(1)], of m le]
  have a0: "absorbed m ?s0" and c0: "bytes_hashed ?s0 = ?w"
    by (simp_all add: sha1_init_def)
  have a1: "absorbed (m @ [0x80]) (sha1_add ?s0 0x80)" using a0 by (rule absorbed_add)
  let ?s1 = "sha1_pad (sha1_add ?s0 0x80)"
  from absorbed_sha1_pad [OF a1, of ?k] pad_count [of "length m"]
  have a2: "absorbed ((m @ [0x80]) @ replicate ?k 0) ?s1" and c1: "bytes_hashed ?s1 = ?w"
    by (simp_all add: bytes_hashed_sha1_add c0)
  let ?t = "[0, 0, 0, ucast (drop_bit 29 ?w), ucast (drop_bit 21 ?w), ucast (drop_bit 13 ?w),
            ucast (drop_bit 5 ?w), ucast (push_bit 3 ?w) :: u8]"
  have f: "sha1_final ?s0 = fold (\<lambda>d s. sha1_add s d) ?t ?s1"
    by (simp add: sha1_final_def Let_def bytes_hashed_sha1_add c1)
  have ad: "absorbed xs s \<Longrightarrow> absorbed (xs @ ys) (fold (\<lambda>d s. sha1_add s d) ys s)" for xs ys s
  proof (induction ys arbitrary: xs s)
    case Nil
    then show ?case by simp
  next
    case (Cons y ys)
    from Cons.IH [OF absorbed_add [OF Cons.prems, of y]] show ?case by simp
  qed
  have p: "fips_pad m = ((m @ [0x80]) @ replicate ?k 0) @ ?t"
    unfolding fips_pad_def length_bytes [OF assms(2)] by simp
  from ad [OF a2, of ?t] have a3: "absorbed (fips_pad m) (sha1_final ?s0)"
    unfolding p f .
  have "sha_state (sha1_final ?s0) =
      fold (\<lambda>M H. fips_block H M) (fips_blocks (fips_pad m)) fips_H0"
    using a3 by (simp add: absorbed_def)
  then show ?thesis by (simp add: sha1_result_final SHA1_bytes)
qed

subsection \<open>Claim C8: decoding the Base64 encoding\<close>

lemma alphabet_ok:
  "list_all (\<lambda>i. \<not> isspace (ENCODEMAP ! i) \<and> ENCODEMAP ! i \<noteq> CHR ''='' \<and>
       unat (DECODEMAP ! of_char (ENCODEMAP ! i)) = i) [0..<64]"
  by code_simp

lemma alphabet:
  assumes "i < 64"
  shows "\<not> isspace (ENCODEMAP ! i)" "ENCODEMAP ! i \<noteq> CHR ''=''"
    "DECODEMAP ! of_char (ENCODEMAP ! i) = of_nat i"
proof -
  from alphabet_ok assms have *: "\<not> isspace (ENCODEMAP ! i) \<and> ENCODEMAP ! i \<noteq> CHR ''='' \<and>
       unat (DECODEMAP ! of_char (ENCODEMAP ! i)) = i"
    by (simp add: list_all_iff)
  then show "\<not> isspace (ENCODEMAP ! i)" "ENCODEMAP ! i \<noteq> CHR ''=''" by simp_all
  from * have "of_nat (unat (DECODEMAP ! of_char (ENCODEMAP ! i))) = (of_nat i :: u8)" by simp
  then show "DECODEMAP ! of_char (ENCODEMAP ! i) = of_nat i" by simp
qed

lemma m63: "(63::u32) = mask 6" by (simp add: mask_eq_exp_minus_1)
lemma m255: "(255::u32) = mask 8" by (simp add: mask_eq_exp_minus_1)

lemma unat_and_63: "unat ((x::u32) AND 63) < 64"
proof -
  have "unat (x AND 63) \<le> unat (63 :: u32)"
    by (rule word_and_le1 [THEN word_le_nat_alt [THEN iffD1]])
  then show ?thesis by simp
qed

lemma ssd: "2 \<le> n \<Longrightarrow> Suc (Suc (n - 2)) = n"
  by simp

lemma ucast_of_nat_sextet: "ucast (of_nat (unat ((x::u32) AND 63)) :: u8) = x AND 63"
  unfolding m63 by (rule bit_eqI) (auto simp add: bit_simps ssd dest: bit_imp_le_length)


lemma sextet_self: "unat (s::u32) < 64 \<Longrightarrow> s AND 63 = s"
proof -
  assume "unat s < 64"
  then have "s < 2 ^ 6" by (simp add: word_less_nat_alt)
  then have "s AND mask 6 = s" by (rule less_mask_eq)
  then show ?thesis by (simp add: m63)
qed

text \<open>The accumulators and the bit fields of the two loops.\<close>

definition acc8 :: "u32 \<Rightarrow> u8 \<Rightarrow> u32" where "acc8 v a = push_bit 8 v OR ucast a"
definition acc6 :: "u32 \<Rightarrow> u32 \<Rightarrow> u32" where "acc6 w s = push_bit 6 w OR s"
definition sx :: "nat \<Rightarrow> u32 \<Rightarrow> u32" where "sx r v = drop_bit r v AND 63"
definition tx :: "nat \<Rightarrow> u32 \<Rightarrow> u32" where "tx k v = push_bit k v AND 63"
definition oct :: "nat \<Rightarrow> u32 \<Rightarrow> u8" where "oct r w = ucast (drop_bit r w AND 255)"

lemma unat_sx: "unat (sx r v) < 64" and unat_tx: "unat (tx k v) < 64"
  by (simp_all add: sx_def tx_def unat_and_63)

lemma rt1: "oct 4 (acc6 (acc6 w (sx 2 (acc8 v a))) (sx 4 (acc8 (acc8 v a) b))) = a"
  unfolding oct_def acc6_def acc8_def sx_def m63 m255
  by (rule bit_eqI) (auto simp add: bit_simps ssd dest: bit_imp_le_length)

lemma rt1_tail: "oct 4 (acc6 (acc6 w (sx 2 (acc8 v a))) (tx 4 (acc8 v a))) = a"
  unfolding oct_def acc6_def acc8_def sx_def tx_def m63 m255
  by (rule bit_eqI) (auto simp add: bit_simps ssd dest: bit_imp_le_length)

lemma rt2: "oct 2 (acc6 (acc6 w1 (sx 4 (acc8 v1 b))) (sx 6 (acc8 (acc8 v1 b) c))) = b"
  unfolding oct_def acc6_def acc8_def sx_def m63 m255
  by (rule bit_eqI) (auto simp add: bit_simps ssd dest: bit_imp_le_length)

lemma rt2_tail: "oct 2 (acc6 (acc6 w1 (sx 4 (acc8 v1 b))) (tx 2 (acc8 v1 b))) = b"
  unfolding oct_def acc6_def acc8_def sx_def tx_def m63 m255
  by (rule bit_eqI) (auto simp add: bit_simps ssd dest: bit_imp_le_length)

lemma rt3: "oct 0 (acc6 (acc6 w2 (sx 6 (acc8 v2 c))) (sx 0 (acc8 v2 c))) = c"
  unfolding oct_def acc6_def acc8_def sx_def m63 m255
  by (rule bit_eqI) (auto simp add: bit_simps ssd dest: bit_imp_le_length)

lemma of_nat_sextet_valid: "i < 64 \<Longrightarrow> (of_nat i :: u8) \<noteq> 0xFF"
proof
  assume i: "i < 64" and e: "(of_nat i :: u8) = 0xFF"
  have "unat (of_nat i :: u8) = i" using i by (simp add: unat_of_nat take_bit_eq_mod)
  with e show False using i by simp
qed

lemma dec_loop_sextet:
  assumes lt: "unat s < 64"
  shows "dec_loop m (ENCODEMAP ! unat s # cs) w rem dout =
     (if 8 \<le> rem + 6 then
        (if m \<le> length dout then None
         else dec_loop m cs (acc6 w s) (rem + 6 - 8) (dout @ [oct (rem + 6 - 8) (acc6 w s)]))
      else dec_loop m cs (acc6 w s) (rem + 6) dout)"
proof -
  note a = alphabet [OF lt]
  have v: "(of_nat (unat s) :: u8) \<noteq> 0xFF" using lt by (rule of_nat_sextet_valid)
  have u: "ucast (of_nat (unat s) :: u8) = s"
    using ucast_of_nat_sextet [of s] sextet_self [OF lt] by simp
  then have u': "ucast (ucast s :: u8) = s" by simp
  show ?thesis
    using a(1) a(2) v by (simp add: a(3) u' Let_def acc6_def oct_def)
qed

lemma dec_sextet_0:
  "unat s < 64 \<Longrightarrow> dec_loop m (ENCODEMAP ! unat s # cs) w 0 dout = dec_loop m cs (acc6 w s) 6 dout"
  by (simp add: dec_loop_sextet del: dec_loop.simps)

lemma dec_sextet_6:
  "unat s < 64 \<Longrightarrow> dec_loop m (ENCODEMAP ! unat s # cs) w 6 dout =
     (if m \<le> length dout then None else dec_loop m cs (acc6 w s) 4 (dout @ [oct 4 (acc6 w s)]))"
  by (simp add: dec_loop_sextet del: dec_loop.simps)

lemma dec_sextet_4:
  "unat s < 64 \<Longrightarrow> dec_loop m (ENCODEMAP ! unat s # cs) w 4 dout =
     (if m \<le> length dout then None else dec_loop m cs (acc6 w s) 2 (dout @ [oct 2 (acc6 w s)]))"
  by (simp add: dec_loop_sextet del: dec_loop.simps)

lemma dec_sextet_2:
  "unat s < 64 \<Longrightarrow> dec_loop m (ENCODEMAP ! unat s # cs) w 2 dout =
     (if m \<le> length dout then None else dec_loop m cs (acc6 w s) 0 (dout @ [oct 0 (acc6 w s)]))"
  by (simp add: dec_loop_sextet del: dec_loop.simps)

lemma dec_stop:
  "dec_loop m [] w r dout = Some (w, r, dout)"
  "dec_loop m (CHR ''='' # cs) w r dout = Some (w, r, dout)"
  "dec_loop m (CHR 0x00 # cs) w r dout = Some (w, r, dout)"
  by (simp_all add: isspace_def DECODEMAP_def)

lemma enc_emit_small: "r < 6 \<Longrightarrow> enc_emit n v r out = Some (r, out)"
  by (simp add: enc_emit.simps [of n v r out])

lemma enc_emit_8:
  "enc_emit n v 8 out =
     (if n \<le> length out then None else Some (2, out @ [ENCODEMAP ! unat (sx 2 v)]))"
  by (simp add: enc_emit.simps [of n v 8 out] enc_emit_small sx_def)

lemma enc_emit_10:
  "enc_emit n v 10 out =
     (if n \<le> length out then None else Some (4, out @ [ENCODEMAP ! unat (sx 4 v)]))"
  by (simp add: enc_emit.simps [of n v 10 out] enc_emit_small sx_def)

lemma enc_emit_12:
  "enc_emit n v 12 out =
     (if n \<le> length out + 1 then None
      else Some (0, out @ [ENCODEMAP ! unat (sx 6 v), ENCODEMAP ! unat (sx 0 v)]))"
  by (simp add: enc_emit.simps [of n v 12 out] enc_emit.simps [of n v 6] enc_emit_small sx_def)

lemma enc_pad_0: "length out mod 4 = 0 \<Longrightarrow> enc_pad n out = Some out"
  by (simp add: enc_pad.simps [of n out])

lemma enc_pad_3:
  "length out mod 4 = 3 \<Longrightarrow>
   enc_pad n out = (if n \<le> length out then None else Some (out @ ''=''))"
  by (simp add: enc_pad.simps [of n out] enc_pad_0 mod_Suc)

lemma enc_pad_2:
  "length out mod 4 = 2 \<Longrightarrow>
   enc_pad n out = (if n \<le> length out + 1 then None else Some (out @ ''==''))"
  by (simp add: enc_pad.simps [of n out] enc_pad_3 mod_Suc)

definition enc_finish :: "nat \<Rightarrow> u32 \<Rightarrow> nat \<Rightarrow> string \<Rightarrow> string option" where
  "enc_finish n v rem out =
     (case (if rem \<noteq> 0 then
              (if n \<le> length out then None
               else Some (out @ [ENCODEMAP ! unat (push_bit (6 - rem) v AND 63)]))
            else Some out) of
        None \<Rightarrow> None
      | Some out1 \<Rightarrow>
          (case enc_pad n out1 of
             None \<Rightarrow> None
           | Some out2 \<Rightarrow> if n \<le> length out2 then None else Some out2))"

lemma base64_encode_finish:
  "base64_encode inp n =
     (case enc_loop n inp 0 0 [] of None \<Rightarrow> None | Some (v, rem, out) \<Rightarrow> enc_finish n v rem out)"
  by (simp add: base64_encode_def enc_finish_def split: option.splits)

lemma enc_finish_0:
  "length out mod 4 = 0 \<Longrightarrow> enc_finish n v 0 out = Some enc \<Longrightarrow> enc = out"
  by (simp add: enc_finish_def enc_pad_0 split: if_splits)

lemma enc_finish_2:
  "length out mod 4 = 1 \<Longrightarrow> enc_finish n v 2 out = Some enc \<Longrightarrow>
   enc = out @ [ENCODEMAP ! unat (tx 4 v)] @ ''==''"
  by (simp add: enc_finish_def enc_pad_2 mod_Suc tx_def split: if_splits)

lemma enc_finish_4:
  "length out mod 4 = 2 \<Longrightarrow> enc_finish n v 4 out = Some enc \<Longrightarrow>
   enc = out @ [ENCODEMAP ! unat (tx 2 v)] @ ''=''"
  by (simp add: enc_finish_def enc_pad_3 mod_Suc tx_def split: if_splits)

fun by3 :: "'a list \<Rightarrow> bool" where
  "by3 (a # b # c # xs) = by3 xs"
| "by3 [] = True"
| "by3 [a] = True"
| "by3 [a, b] = True"

lemma enc_loop_1:
  "enc_loop n (a # xs) v 0 out = Some r \<Longrightarrow>
   enc_loop n xs (acc8 v a) 2 (out @ [ENCODEMAP ! unat (sx 2 (acc8 v a))]) = Some r"
  by (simp add: Let_def enc_emit_8 acc8_def split: if_splits)

lemma enc_loop_2:
  "enc_loop n (b # xs) v 2 out = Some r \<Longrightarrow>
   enc_loop n xs (acc8 v b) 4 (out @ [ENCODEMAP ! unat (sx 4 (acc8 v b))]) = Some r"
  by (simp add: Let_def enc_emit_10 acc8_def split: if_splits)

lemma enc_loop_3:
  "enc_loop n (c # xs) v 4 out = Some r \<Longrightarrow>
   enc_loop n xs (acc8 v c) 0
     (out @ [ENCODEMAP ! unat (sx 6 (acc8 v c)), ENCODEMAP ! unat (sx 0 (acc8 v c))]) = Some r"
  by (simp add: Let_def enc_emit_12 acc8_def split: if_splits)

lemma roundtrip_loop:
  assumes "enc_loop n xs v 0 out = Some (v', r', out')" and "enc_finish n v' r' out' = Some enc"
    and "length out mod 4 = 0" and "length dout + length xs \<le> m"
    and "rest = [] \<or> rest = [CHR 0x00]"
  shows "\<exists>S w' r''. enc = out @ S \<and> dec_loop m (S @ rest) w 0 dout = Some (w', r'', dout @ xs) \<and> r'' < 8"
  using assms
proof (induction xs arbitrary: v w out dout rule: by3.induct)
  case (1 a b c xs)
  let ?v1 = "acc8 v a" let ?v2 = "acc8 (acc8 v a) b" let ?v3 = "acc8 (acc8 (acc8 v a) b) c"
  let ?s1 = "sx 2 ?v1" let ?s2 = "sx 4 ?v2" let ?s3 = "sx 6 ?v3" let ?s4 = "sx 0 ?v3"
  let ?G = "[ENCODEMAP ! unat ?s1, ENCODEMAP ! unat ?s2, ENCODEMAP ! unat ?s3, ENCODEMAP ! unat ?s4]"
  let ?w4 = "acc6 (acc6 (acc6 (acc6 w ?s1) ?s2) ?s3) ?s4"
  have e: "enc_loop n xs ?v3 0 (out @ ?G) = Some (v', r', out')"
    using enc_loop_3 [OF enc_loop_2 [OF enc_loop_1 [OF "1.prems"(1)]]] by simp
  have l: "length (out @ ?G) mod 4 = 0" using "1.prems"(3) by simp
  have d: "length (dout @ [a, b, c]) + length xs \<le> m" using "1.prems"(4) by simp
  from "1.IH" [OF e "1.prems"(2) l d "1.prems"(5), of ?w4]
  obtain S w' r'' where S: "enc = (out @ ?G) @ S"
    and D: "dec_loop m (S @ rest) ?w4 0 (dout @ [a, b, c]) = Some (w', r'', (dout @ [a, b, c]) @ xs)"
    and r: "r'' < 8" by blast
  have room: "\<not> m \<le> length dout" "\<not> m \<le> length (dout @ [a])" "\<not> m \<le> length (dout @ [a, b])"
    using "1.prems"(4) by simp_all
  have "dec_loop m ((?G @ S) @ rest) w 0 dout =
        dec_loop m (S @ rest) ?w4 0 (dout @ [a, b, c])"
    using room
    by (simp add: dec_sextet_0 dec_sextet_6 dec_sextet_4 dec_sextet_2 unat_sx rt1 rt2 rt3
        del: dec_loop.simps)
  with S D r show ?case by (intro exI [of _ "?G @ S"] exI [of _ w'] exI [of _ r'']) simp
next
  case 2
  from "2.prems"(1) have v: "v' = v" "r' = 0" "out' = out" by simp_all
  from enc_finish_0 [OF "2.prems"(3), of n v enc] "2.prems"(2) have "enc = out"
    by (simp add: v)
  moreover have "dec_loop m rest w 0 dout = Some (w, 0, dout)"
    using "2.prems"(5) by (auto simp add: dec_stop simp del: dec_loop.simps)
  ultimately show ?case by (intro exI [of _ "[]"] exI [of _ w] exI [of _ 0]) simp
next
  case (3 a)
  let ?v1 = "acc8 v a"
  let ?s1 = "sx 2 ?v1" let ?s2 = "tx 4 ?v1" 
  let ?w2 = "acc6 (acc6 w ?s1) ?s2"
  have e: "enc_loop n [] ?v1 2 (out @ [ENCODEMAP ! unat ?s1]) = Some (v', r', out')"
    using enc_loop_1 [OF "3.prems"(1)] .
  then have v: "v' = ?v1" "r' = 2" "out' = out @ [ENCODEMAP ! unat ?s1]" by auto
  have "length out' mod 4 = 1" using "3.prems"(3) by (simp add: v mod_Suc)
  from enc_finish_2 [OF this, of n v' enc] "3.prems"(2)
  have enc: "enc = out @ ([ENCODEMAP ! unat ?s1, ENCODEMAP ! unat ?s2] @ ''=='')"
    by (simp add: v)
  have room: "\<not> m \<le> length dout" using "3.prems"(4) by simp
  have "dec_loop m (([ENCODEMAP ! unat ?s1, ENCODEMAP ! unat ?s2] @ ''=='') @ rest) w 0 dout =
        Some (?w2, 4, dout @ [a])"
    using room
    by (simp add: dec_sextet_0 dec_sextet_6 unat_sx unat_tx rt1_tail dec_stop del: dec_loop.simps)
  with enc show ?case
    by (intro exI [of _ "[ENCODEMAP ! unat ?s1, ENCODEMAP ! unat ?s2] @ ''==''"] exI [of _ ?w2]
        exI [of _ 4]) simp
next
  case (4 a b)
  let ?v1 = "acc8 v a" let ?v2 = "acc8 (acc8 v a) b"
  let ?s1 = "sx 2 ?v1" let ?s2 = "sx 4 ?v2" let ?s3 = "tx 2 ?v2"
  let ?w3 = "acc6 (acc6 (acc6 w ?s1) ?s2) ?s3"
  have e: "enc_loop n [] ?v2 4 (out @ [ENCODEMAP ! unat ?s1, ENCODEMAP ! unat ?s2]) = Some (v', r', out')"
    using enc_loop_2 [OF enc_loop_1 [OF "4.prems"(1)]] by (simp del: enc_loop.simps)
  then have v: "v' = ?v2" "r' = 4" "out' = out @ [ENCODEMAP ! unat ?s1, ENCODEMAP ! unat ?s2]"
    by auto
  have "length out' mod 4 = 2" using "4.prems"(3) by (simp add: v mod_Suc)
  from enc_finish_4 [OF this, of n v' enc] "4.prems"(2)
  have enc: "enc = out @ ([ENCODEMAP ! unat ?s1, ENCODEMAP ! unat ?s2, ENCODEMAP ! unat ?s3] @ ''='')"
    by (simp add: v)
  have room: "\<not> m \<le> length dout" "\<not> m \<le> length (dout @ [a])" using "4.prems"(4) by simp_all
  have "dec_loop m (([ENCODEMAP ! unat ?s1, ENCODEMAP ! unat ?s2, ENCODEMAP ! unat ?s3] @ ''='') @ rest) w 0 dout =
        Some (?w3, 2, dout @ [a, b])"
    using room
    by (simp add: dec_sextet_0 dec_sextet_6 dec_sextet_4 unat_sx unat_tx rt1 rt2_tail dec_stop
        del: dec_loop.simps)
  with enc show ?case
    by (intro exI [of _ "[ENCODEMAP ! unat ?s1, ENCODEMAP ! unat ?s2, ENCODEMAP ! unat ?s3] @ ''=''"]
        exI [of _ ?w3] exI [of _ 2]) simp
qed

lemma dec_loop_rem: "dec_loop m cs w r dout = Some (w', r', dout') \<Longrightarrow> r < 8 \<Longrightarrow> r' < 8"
proof (induction cs arbitrary: w r dout)
  case Nil
  then show ?case by simp
next
  case (Cons c cs)
  then show ?case
    by (auto simp add: Let_def split: if_splits)
qed

text \<open>
  Claim C8. For every byte string \<open>x\<close> and output buffers large enough for the results
  (\<open>n\<close> bytes for the encoder, more than the length of the encoding; \<open>m\<close> bytes for the
  decoder, at least the length of \<open>x\<close>; \<open>n\<close> below \<open>2 ^ 31\<close>, so that neither the
  \<^verbatim>\<open>unsigned\<close> counters nor the \<^verbatim>\<open>int\<close> results of the C functions wrap),
  \<^verbatim>\<open>base64_encode\<close> succeeds, and
  \<^verbatim>\<open>base64_decode\<close> applied to its output, with or without the terminating NUL, writes back
  exactly the bytes of \<open>x\<close> and returns their number; the padding \<open>=\<close> ends the input.
\<close>

theorem base64_roundtrip:
  assumes "4 * ((length x + 2) div 3) < n" and "length x \<le> m" and "n < 2 ^ 31"
  shows "\<exists>enc. base64_encode x n = Some enc \<and> length enc = 4 * ((length x + 2) div 3) \<and>
           base64_decode enc m = Some x \<and> base64_decode (enc @ [CHR 0x00]) m = Some x"
proof -
  from base64_encode_total [OF assms(1)] obtain enc where
    enc: "base64_encode x n = Some enc" and len: "length enc = 4 * ((length x + 2) div 3)"
    by blast
  from enc obtain v r out where l: "enc_loop n x 0 0 [] = Some (v, r, out)"
    and f: "enc_finish n v r out = Some enc"
    by (auto simp add: base64_encode_finish split: option.splits)
  have dec: "base64_decode (enc @ rest) m = Some x" if "rest = [] \<or> rest = [CHR 0x00]" for rest
  proof -
    from roundtrip_loop [OF l f _ _ that, of "[]" m 0] assms(2)
    obtain S w' r'' where "enc = S" "dec_loop m (S @ rest) 0 0 [] = Some (w', r'', x)" "r'' < 8"
      by auto
    then show ?thesis by (simp add: base64_decode_def)
  qed
  from dec [of "[]"] dec [of "[CHR 0x00]"] enc len show ?thesis by simp
qed

theorem base64_roundtrip_witness:
  "4 * ((length [0x66, 0x6F, 0x6F, 0x62 :: u8] + 2) div 3) < (9::nat) \<and>
   length [0x66, 0x6F, 0x6F, 0x62 :: u8] \<le> (4::nat) \<and> (9::nat) < 2 ^ 31 \<and>
   (\<exists>enc. base64_encode [0x66, 0x6F, 0x6F, 0x62] 9 = Some enc \<and>
      length enc = 4 * ((length [0x66, 0x6F, 0x6F, 0x62 :: u8] + 2) div 3) \<and>
      base64_decode enc 4 = Some [0x66, 0x6F, 0x6F, 0x62] \<and>
      base64_decode (enc @ [CHR 0x00]) 4 = Some [0x66, 0x6F, 0x6F, 0x62])"
proof -
  have a: "4 * ((length [0x66, 0x6F, 0x6F, 0x62 :: u8] + 2) div 3) < (9::nat)" by simp
  have b: "length [0x66, 0x6F, 0x6F, 0x62 :: u8] \<le> (4::nat)" by simp
  have c: "(9::nat) < 2 ^ 31" by simp
  from base64_roundtrip [OF a b c] a b c show ?thesis by blast
qed

lemma base64_example:
  "base64_encode [0x66, 0x6F, 0x6F, 0x62] 9 = Some ''Zm9vYg==''"
  "base64_decode ''Zm9vYg=='' 4 = Some [0x66, 0x6F, 0x6F, 0x62]"
  by (simp_all add: base64_encode_def base64_decode_def enc_emit.simps enc_pad.simps
      ENCODEMAP_def DECODEMAP_def isspace_def Let_def)


subsection \<open>Base64 as RFC 4648 defines it, and the encoder\<close>

text \<open>
  The specification names the encoding, Base64. This is Base64 as RFC 4648 defines it: three
  input bytes are concatenated into a group of 24 bits, which is cut into four groups of 6
  bits, each translated by the alphabet; a last group of one or two bytes is filled with zero
  bits on the right and gives two or three characters, followed by \<open>=\<close> up to the four.
\<close>

definition rfc4648_alphabet :: string where
  "rfc4648_alphabet = ''ABCDEFGHIJKLMNOPQRSTUVWXYZabcdefghijklmnopqrstuvwxyz0123456789+/''"

definition group24 :: "u8 \<Rightarrow> u8 \<Rightarrow> u8 \<Rightarrow> nat" where
  "group24 a b c = push_bit 16 (unat a) OR push_bit 8 (unat b) OR unat c"

definition sextet :: "nat \<Rightarrow> nat \<Rightarrow> char" where
  "sextet k g = rfc4648_alphabet ! take_bit 6 (drop_bit (6 * k) g)"

fun rfc4648_base64 :: "u8 list \<Rightarrow> string" where
  "rfc4648_base64 (a # b # c # xs) =
     [sextet 3 (group24 a b c), sextet 2 (group24 a b c), sextet 1 (group24 a b c),
      sextet 0 (group24 a b c)] @ rfc4648_base64 xs"
| "rfc4648_base64 [] = []"
| "rfc4648_base64 [a] =
     [sextet 3 (group24 a 0 0), sextet 2 (group24 a 0 0), CHR ''='', CHR ''='']"
| "rfc4648_base64 [a, b] =
     [sextet 3 (group24 a b 0), sextet 2 (group24 a b 0), sextet 1 (group24 a b 0), CHR ''='']"

lemma sextet_1st: "unat (sx 2 (acc8 v a)) = take_bit 6 (drop_bit 18 (group24 a b c))"
  unfolding sx_def acc8_def group24_def m63
  by (rule bit_eqI) (auto simp add: bit_simps ssd dest: bit_imp_le_length)

lemma sextet_2nd:
  "unat (sx 4 (acc8 (acc8 v a) b)) = take_bit 6 (drop_bit 12 (group24 a b c))"
  unfolding sx_def acc8_def group24_def m63
  by (rule bit_eqI) (auto simp add: bit_simps ssd dest: bit_imp_le_length)

lemma sextet_3rd:
  "unat (sx 6 (acc8 (acc8 v1 b) c)) = take_bit 6 (drop_bit 6 (group24 a b c))"
  unfolding sx_def acc8_def group24_def m63
  by (rule bit_eqI) (auto simp add: bit_simps ssd dest: bit_imp_le_length)

lemma sextet_4th:
  "unat (sx 0 (acc8 v2 c)) = take_bit 6 (drop_bit 0 (group24 a b c))"
  unfolding sx_def acc8_def group24_def m63
  by (rule bit_eqI) (auto simp add: bit_simps ssd dest: bit_imp_le_length)

lemma sextet_tail1:
  "unat (tx 4 (acc8 v a)) = take_bit 6 (drop_bit 12 (group24 a 0 0))"
  unfolding tx_def acc8_def group24_def m63
  by (rule bit_eqI) (auto simp add: bit_simps ssd dest: bit_imp_le_length)

lemma sextet_tail2:
  "unat (tx 2 (acc8 v1 b)) = take_bit 6 (drop_bit 6 (group24 a b 0))"
  unfolding tx_def acc8_def group24_def m63
  by (rule bit_eqI) (auto simp add: bit_simps ssd dest: bit_imp_le_length)

lemma ENCODEMAP_alphabet: "ENCODEMAP = rfc4648_alphabet"
  by (simp add: ENCODEMAP_def rfc4648_alphabet_def)

lemma enc_loop_ref:
  assumes "enc_loop n xs v 0 out = Some (v', r', out')" and "enc_finish n v' r' out' = Some enc"
    and "length out mod 4 = 0"
  shows "enc = out @ rfc4648_base64 xs"
  using assms
proof (induction xs arbitrary: v out rule: by3.induct)
  case (1 a b c xs)
  let ?v1 = "acc8 v a" let ?v2 = "acc8 (acc8 v a) b" let ?v3 = "acc8 (acc8 (acc8 v a) b) c"
  let ?G = "[ENCODEMAP ! unat (sx 2 ?v1), ENCODEMAP ! unat (sx 4 ?v2),
             ENCODEMAP ! unat (sx 6 ?v3), ENCODEMAP ! unat (sx 0 ?v3)]"
  have e: "enc_loop n xs ?v3 0 (out @ ?G) = Some (v', r', out')"
    using enc_loop_3 [OF enc_loop_2 [OF enc_loop_1 [OF "1.prems"(1)]]] by simp
  have l: "length (out @ ?G) mod 4 = 0" using "1.prems"(3) by simp
  have g: "?G = [sextet 3 (group24 a b c), sextet 2 (group24 a b c), sextet 1 (group24 a b c),
      sextet 0 (group24 a b c)]"
    by (simp add: sextet_def ENCODEMAP_alphabet sextet_1st [of v a b c] sextet_2nd [of v a b c]
        sextet_3rd [of "acc8 v a" b c a] sextet_4th [of "acc8 (acc8 v a) b" c a b])
  from "1.IH" [OF e "1.prems"(2) l] show ?case by (simp add: g)
next
  case 2
  from "2.prems"(1) have v: "v' = v" "r' = 0" "out' = out" by simp_all
  from enc_finish_0 [OF "2.prems"(3), of n v enc] "2.prems"(2) show ?case by (simp add: v)
next
  case (3 a)
  let ?v1 = "acc8 v a"
  have e: "enc_loop n [] ?v1 2 (out @ [ENCODEMAP ! unat (sx 2 ?v1)]) = Some (v', r', out')"
    using enc_loop_1 [OF "3.prems"(1)] .
  then have v: "v' = ?v1" "r' = 2" "out' = out @ [ENCODEMAP ! unat (sx 2 ?v1)]" by auto
  have "length out' mod 4 = 1" using "3.prems"(3) by (simp add: v mod_Suc)
  from enc_finish_2 [OF this, of n v' enc] "3.prems"(2)
  have "enc = out @ ([ENCODEMAP ! unat (sx 2 ?v1), ENCODEMAP ! unat (tx 4 ?v1)] @ ''=='')"
    by (simp add: v)
  then show ?case
    by (simp add: sextet_def ENCODEMAP_alphabet sextet_1st [of v a 0 0] sextet_tail1 [of v a])
next
  case (4 a b)
  let ?v1 = "acc8 v a" let ?v2 = "acc8 (acc8 v a) b"
  have e: "enc_loop n [] ?v2 4 (out @ [ENCODEMAP ! unat (sx 2 ?v1), ENCODEMAP ! unat (sx 4 ?v2)])
      = Some (v', r', out')"
    using enc_loop_2 [OF enc_loop_1 [OF "4.prems"(1)]] by (simp del: enc_loop.simps)
  then have v: "v' = ?v2" "r' = 4"
    "out' = out @ [ENCODEMAP ! unat (sx 2 ?v1), ENCODEMAP ! unat (sx 4 ?v2)]" by auto
  have "length out' mod 4 = 2" using "4.prems"(3) by (simp add: v mod_Suc)
  from enc_finish_4 [OF this, of n v' enc] "4.prems"(2)
  have "enc = out @ ([ENCODEMAP ! unat (sx 2 ?v1), ENCODEMAP ! unat (sx 4 ?v2),
      ENCODEMAP ! unat (tx 2 ?v2)] @ ''='')"
    by (simp add: v)
  then show ?case
    by (simp add: sextet_def ENCODEMAP_alphabet sextet_1st [of v a b 0] sextet_2nd [of v a b 0]
        sextet_tail2 [of "acc8 v a" b a])
qed

lemma base64_encode_ref:
  assumes "4 * ((length x + 2) div 3) < n"
  shows "base64_encode x n = Some (rfc4648_base64 x)"
proof -
  from base64_encode_total [OF assms] obtain enc where enc: "base64_encode x n = Some enc"
    by blast
  from enc obtain v r out where l: "enc_loop n x 0 0 [] = Some (v, r, out)"
    and f: "enc_finish n v r out = Some enc"
    by (auto simp add: base64_encode_finish split: option.splits)
  from enc_loop_ref [OF l f] enc show ?thesis by simp
qed

lemma length_fips_block: "length (fips_block H M) = 5"
  by (simp add: fips_block_def split: prod.splits)

lemma length_fold_fips_block:
  "length H = 5 \<Longrightarrow> length (fold (\<lambda>M H. fips_block H M) bl H) = 5"
  by (induction bl arbitrary: H) (simp_all add: length_fips_block)

lemma length_SHA1: "length (SHA1 m) = 20"
  by (simp add: SHA1_bytes length_result_bytes length_fold_fips_block fips_H0_def)

subsection \<open>Evaluating the accept key of a second example\<close>

lemma second_vector_hashed:
  "fold (\<lambda>b s. sha1_hashbyte s b)
     (map of_char ''x3JJHMbDL1EzLkh9GBhXDw=='' @ map of_char NN_WS_HANDSHAKE_MAGIC_GUID)
     (sha1_init False
       \<lparr>sha_buffer = [0, 0, 0, 0, 0, 0, 0, 0, 0, 0, 0, 0, 0, 0, 0, 0], sha_state = [],
       bytes_hashed = 0, buffer_offset = 0, is_little_endian = False\<rparr>) =
   \<lparr>sha_buffer =
    [2016627274, 1213030980, 1278297466, 1282107449, 1195534424, 1148665149,
     842348613, 1095123253, 759511345, 875377719, 1145122105, 893600045,
     1127563586, 809780024, 893530417, 0],
    sha_state = [1732584193, 4023233417, 2562383102, 271733878, 3285377520],
    bytes_hashed = 60, buffer_offset = 60, is_little_endian = False\<rparr>"
  by (simp add: sha1_hashbyte_def sha1_add_eval add_fin_def sha1_init_def
      NN_WS_HANDSHAKE_MAGIC_GUID_def)

lemma second_vector_block1:
  "sha1_pad (sha1_add
     \<lparr>sha_buffer =
    [2016627274, 1213030980, 1278297466, 1282107449, 1195534424, 1148665149,
     842348613, 1095123253, 759511345, 875377719, 1145122105, 893600045,
     1127563586, 809780024, 893530417, 0],
    sha_state = [1732584193, 4023233417, 2562383102, 271733878, 3285377520],
    bytes_hashed = 60, buffer_offset = 60, is_little_endian = False\<rparr> 0x80) =
   \<lparr>sha_buffer =
    [0, 0, 0, 0, 0, 0, 0, 0, 0, 0, 0, 0, 0, 0, 532713773, 238844983],
    sha_state = [3980292489, 2215225455, 207840922, 4085491932, 4095621470],
    bytes_hashed = 60, buffer_offset = 56, is_little_endian = False\<rparr>"
  by (simp add: sha1_pad.simps sha1_add_eval add_fin_def block_fin_def upt80 sha1_round_eval
      round_fin_def sha1_rol32_def)

lemma second_vector_block2:
  "final_fin (sha1_add (sha1_add (sha1_add
     \<lparr>sha_buffer =
    [0, 0, 0, 0, 0, 0, 0, 0, 0, 0, 0, 0, 0, 0, 532713773, 238844983],
    sha_state = [3980292489, 2215225455, 207840922, 4085491932, 4095621470],
    bytes_hashed = 60, buffer_offset = 56, is_little_endian = False\<rparr> 0) 0) 0) =
   \<lparr>sha_buffer =
    [0, 13369344, 62976000, 4423680, 0, 126812160, 16711680, 52862464,
     251658240, 15790080, 3357696, 520062976, 0, 213420032, 1006694400,
     67783168],
    sha_state = [489270131, 1259115909, 604006822, 3840141595, 1641683305],
    bytes_hashed = 60, buffer_offset = 0, is_little_endian = False\<rparr>"
  by (simp add: final_fin_def sha1_add_eval add_fin_def block_fin_def upt80 sha1_round_eval
      round_fin_def sha1_rol32_def)

lemma second_vector_digest:
  "sha1_result
     \<lparr>sha_buffer =
    [2016627274, 1213030980, 1278297466, 1282107449, 1195534424, 1148665149,
     842348613, 1095123253, 759511345, 875377719, 1145122105, 893600045,
     1127563586, 809780024, 893530417, 0],
    sha_state = [1732584193, 4023233417, 2562383102, 271733878, 3285377520],
    bytes_hashed = 60, buffer_offset = 60, is_little_endian = False\<rparr> =
   [29, 41, 171, 115, 75, 12, 149, 133, 36, 0, 105, 166, 228, 227, 233, 27, 97, 218, 25, 105]"
  by (simp add: sha1_result_final sha1_final_eval second_vector_block1 second_vector_block2
      bytes_of_u32_def)

lemma second_vector_base64:
  "base64_encode [29, 41, 171, 115, 75, 12, 149, 133, 36, 0, 105, 166, 228, 227, 233, 27, 97, 218, 25, 105] 29 = Some ''HSmrc0sMlYUkAGmm5OPpG2HaGWk=''"
  by (simp add: base64_encode_def enc_loop_eval enc_loop_fin_def enc_emit.simps enc_pad.simps
      ENCODEMAP_def)

lemma second_vector_zero:
  "nn_ws_handshake_hash_key False
     \<lparr>sha_buffer = [0, 0, 0, 0, 0, 0, 0, 0, 0, 0, 0, 0, 0, 0, 0, 0], sha_state = [],
       bytes_hashed = 0, buffer_offset = 0, is_little_endian = False\<rparr>
     (map of_char ''x3JJHMbDL1EzLkh9GBhXDw=='') 29 = Some ''HSmrc0sMlYUkAGmm5OPpG2HaGWk=''"
  unfolding nn_ws_handshake_hash_key_def Let_def fold_append [symmetric, THEN fun_cong, unfolded o_apply]
  by (simp only: second_vector_hashed second_vector_digest second_vector_base64)

subsection \<open>Claim C1: the accept key\<close>

text \<open>
  Claim C1. For every client key, \<^verbatim>\<open>nn_ws_handshake_hash_key\<close> feeds the key bytes
  followed by the 36 characters of the magic GUID to SHA-1 and Base64-encodes the 20-byte
  digest: its result is the Base64 encoding (RFC 4648) of the SHA-1 digest (FIPS 180-4) of
  the key followed by the GUID, for every key of less than \<open>2\<^sup>3\<^sup>2 - 36\<close> bytes, the range
  in which the 32-bit byte counter of the hasher does not wrap. For every key the result has
  exactly 28 characters; and for the key \<open>dGhlIHNhbXBsZSBub25jZQ==\<close> of RFC 6455 it is
  \<open>s3pPLMBiTxaQ9kYGzzhZRbK+xOo=\<close>.
  This holds on either byte order, whatever the uninitialised \<^verbatim>\<open>struct sha1hash\<close>
  holds on entry (its buffer has 16 words), for an output buffer of at least 29 bytes, which
  is what both callers pass (28 characters and the terminating NUL).
\<close>

theorem hash_key_accept_key:
  assumes "length (sha_buffer hash) = 16" and "29 \<le> hashed_len"
  shows "(length client_key + 36 < 4294967296 \<longrightarrow>
            nn_ws_handshake_hash_key le hash client_key hashed_len =
              Some (rfc4648_base64 (SHA1 (client_key @ map of_char NN_WS_HANDSHAKE_MAGIC_GUID))))
         \<and> length NN_WS_HANDSHAKE_MAGIC_GUID = 36
         \<and> length (SHA1 (client_key @ map of_char NN_WS_HANDSHAKE_MAGIC_GUID)) = 20
         \<and> (\<exists>out. nn_ws_handshake_hash_key le hash client_key hashed_len = Some out \<and> length out = 28)
         \<and> nn_ws_handshake_hash_key le hash (map of_char ''dGhlIHNhbXBsZSBub25jZQ=='') hashed_len =
             Some ''s3pPLMBiTxaQ9kYGzzhZRbK+xOo=''"
proof -
  let ?m = "client_key @ map of_char NN_WS_HANDSHAKE_MAGIC_GUID"
  let ?h = "fold (\<lambda>b s. sha1_hashbyte s b) ?m (sha1_init le hash)"
  have unfold: "nn_ws_handshake_hash_key le hash client_key hashed_len =
      base64_encode (sha1_result ?h) hashed_len"
    by (simp add: nn_ws_handshake_hash_key_def Let_def)
  have g: "length NN_WS_HANDSHAKE_MAGIC_GUID = 36"
    by (simp add: NN_WS_HANDSHAKE_MAGIC_GUID_def)
  have "length (sha_state (sha1_init le hash)) = 5" by (simp add: sha1_init_def)
  then have len20: "length (sha1_result ?h) = 20"
    by (intro length_sha1_result length_sha_state_fold)
  have "4 * ((20 + 2) div 3) < hashed_len"
    using assms(2) by simp
  then have room: "4 * ((length (sha1_result ?h) + 2) div 3) < hashed_len"
    unfolding len20 .
  from base64_encode_total [OF room]
  have len28: "\<exists>out. nn_ws_handshake_hash_key le hash client_key hashed_len = Some out \<and> length out = 28"
    unfolding unfold len20 by simp
  have ref: "nn_ws_handshake_hash_key le hash client_key hashed_len = Some (rfc4648_base64 (SHA1 ?m))"
    if "length client_key + 36 < 4294967296"
  proof -
    from that g have "length ?m < 4294967296" by simp
    from sha1_refines [OF assms(1) this, of le] have "sha1_result ?h = SHA1 ?m" .
    with base64_encode_ref [OF room] show ?thesis unfolding unfold by simp
  qed
  let ?z = "\<lparr>sha_buffer = [0, 0, 0, 0, 0, 0, 0, 0, 0, 0, 0, 0, 0, 0, 0, 0], sha_state = [],
       bytes_hashed = 0, buffer_offset = 0, is_little_endian = False\<rparr>"
  let ?K = "map of_char ''dGhlIHNhbXBsZSBub25jZQ=='' :: u8 list"
  have ind: "nn_ws_handshake_hash_key le hash ?K 29 = nn_ws_handshake_hash_key False ?z ?K 29"
  proof (rule hash_key_independent)
    show "length (sha_buffer hash) = 16" by (rule assms(1))
    show "length (sha_buffer ?z) = 16" by simp
  qed
  have v29: "nn_ws_handshake_hash_key le hash ?K 29 = Some ''s3pPLMBiTxaQ9kYGzzhZRbK+xOo=''"
    unfolding ind by (rule test_vector_zero)
  then have "base64_encode (sha1_result (fold (\<lambda>b s. sha1_hashbyte s b)
        (map of_char NN_WS_HANDSHAKE_MAGIC_GUID)
        (fold (\<lambda>b s. sha1_hashbyte s b) ?K (sha1_init le hash)))) 29 =
      Some ''s3pPLMBiTxaQ9kYGzzhZRbK+xOo=''"
    unfolding nn_ws_handshake_hash_key_def Let_def .
  from base64_encode_mono [OF this assms(2)]
  have vec: "nn_ws_handshake_hash_key le hash ?K hashed_len = Some ''s3pPLMBiTxaQ9kYGzzhZRbK+xOo=''"
    unfolding nn_ws_handshake_hash_key_def Let_def .
  from ref g length_SHA1 [of ?m] len28 vec show ?thesis by blast
qed

theorem hash_key_accept_key_witness:
  "length (sha_buffer \<lparr>sha_buffer = replicate 16 0xDEADBEEF, sha_state = [7], bytes_hashed = 9,
       buffer_offset = 3, is_little_endian = False\<rparr>) = 16 \<and> (29::nat) \<le> 29 \<and>
   length (map of_char ''x3JJHMbDL1EzLkh9GBhXDw=='' :: u8 list) + 36 < (4294967296::nat) \<and>
   nn_ws_handshake_hash_key True
       \<lparr>sha_buffer = replicate 16 0xDEADBEEF, sha_state = [7], bytes_hashed = 9,
       buffer_offset = 3, is_little_endian = False\<rparr> (map of_char ''x3JJHMbDL1EzLkh9GBhXDw=='') 29 =
     Some (rfc4648_base64 (SHA1 (map of_char ''x3JJHMbDL1EzLkh9GBhXDw=='' @
       map of_char NN_WS_HANDSHAKE_MAGIC_GUID))) \<and>
   rfc4648_base64 (SHA1 (map of_char ''x3JJHMbDL1EzLkh9GBhXDw=='' @
       map of_char NN_WS_HANDSHAKE_MAGIC_GUID)) = ''HSmrc0sMlYUkAGmm5OPpG2HaGWk='' \<and>
   nn_ws_handshake_hash_key True
       \<lparr>sha_buffer = replicate 16 0xDEADBEEF, sha_state = [7], bytes_hashed = 9,
       buffer_offset = 3, is_little_endian = False\<rparr> (map of_char ''dGhlIHNhbXBsZSBub25jZQ=='') 29 =
     Some ''s3pPLMBiTxaQ9kYGzzhZRbK+xOo=''"
proof -
  let ?g = "\<lparr>sha_buffer = replicate 16 0xDEADBEEF, sha_state = [7], bytes_hashed = 9,
       buffer_offset = 3, is_little_endian = False\<rparr>"
  let ?z = "\<lparr>sha_buffer = [0, 0, 0, 0, 0, 0, 0, 0, 0, 0, 0, 0, 0, 0, 0, 0], sha_state = [],
       bytes_hashed = 0, buffer_offset = 0, is_little_endian = False\<rparr>"
  let ?K = "map of_char ''x3JJHMbDL1EzLkh9GBhXDw=='' :: u8 list"
  have a: "length (sha_buffer ?g) = 16" by simp
  have b: "(29::nat) \<le> 29" by simp
  have c: "length ?K + 36 < (4294967296::nat)" by simp
  have "nn_ws_handshake_hash_key True ?g ?K 29 = nn_ws_handshake_hash_key False ?z ?K 29"
  proof (rule hash_key_independent)
    show "length (sha_buffer ?g) = 16" by simp
    show "length (sha_buffer ?z) = 16" by simp
  qed
  then have d: "nn_ws_handshake_hash_key True ?g ?K 29 = Some ''HSmrc0sMlYUkAGmm5OPpG2HaGWk=''"
    by (simp only: second_vector_zero)
  note t = hash_key_accept_key [OF a b, of ?K True]
  from t c have e: "nn_ws_handshake_hash_key True ?g ?K 29 =
      Some (rfc4648_base64 (SHA1 (?K @ map of_char NN_WS_HANDSHAKE_MAGIC_GUID)))"
    by blast
  from e d have f: "rfc4648_base64 (SHA1 (?K @ map of_char NN_WS_HANDSHAKE_MAGIC_GUID)) =
      ''HSmrc0sMlYUkAGmm5OPpG2HaGWk=''"
    by (simp only: option.inject)
  from t have v: "nn_ws_handshake_hash_key True ?g (map of_char ''dGhlIHNhbXBsZSBub25jZQ=='') 29 =
      Some ''s3pPLMBiTxaQ9kYGzzhZRbK+xOo=''"
    by blast
  from a b c e f v show ?thesis by blast
qed


section \<open>The parsers\<close>

subsection \<open>C strings\<close>

definition NUL :: char where
  "NUL = CHR 0x00"

text \<open>
  \<open>cstr buf p\<close> is the C string at offset \<open>p\<close> of the buffer \<open>buf\<close>: the characters from
  \<open>p\<close> up to the first NUL. The string functions and the matchers below work on a C string
  \<open>str\<close> and a position in it; \<open>peek str pos\<close> is the character \<^verbatim>\<open>*pos\<close>, the
  terminating NUL at the end of the string.
\<close>

definition cstr :: "string \<Rightarrow> nat \<Rightarrow> string" where
  "cstr buf p = takeWhile (\<lambda>c. c \<noteq> NUL) (drop p buf)"

definition peek :: "string \<Rightarrow> nat \<Rightarrow> char" where
  "peek str pos = (if pos < length str then str ! pos else NUL)"

text \<open>\<^verbatim>\<open>strstr\<close>: the position of the first occurrence of \<open>needle\<close> in \<open>str\<close> at or after
  \<open>pos\<close>.\<close>

fun find_sub :: "string \<Rightarrow> string \<Rightarrow> nat option" where
  "find_sub [] needle = (if needle = [] then Some 0 else None)"
| "find_sub (h # hs) needle =
     (if prefix needle (h # hs) then Some 0 else map_option Suc (find_sub hs needle))"

definition strstr :: "string \<Rightarrow> nat \<Rightarrow> string \<Rightarrow> nat option" where
  "strstr str pos needle = map_option (\<lambda>k. pos + k) (find_sub (drop pos str) needle)"

text \<open>\<^verbatim>\<open>tolower\<close> in the C locale.\<close>

definition tolower :: "char \<Rightarrow> char" where
  "tolower c =
     (case map_of (zip ''ABCDEFGHIJKLMNOPQRSTUVWXYZ'' ''abcdefghijklmnopqrstuvwxyz'') c of
        Some l \<Rightarrow> l
      | None \<Rightarrow> c)"

text \<open>
  Modelled from the spec: the macros \<^verbatim>\<open>NN_WS_HANDSHAKE_CRLF\<close> and
  \<^verbatim>\<open>NN_WS_HANDSHAKE_TERMSEQ\<close> of the header \<^verbatim>\<open>ws_handshake.h\<close>, the two bytes
  \<open>0D 0A\<close> and the four bytes \<open>0D 0A 0D 0A\<close>.
\<close>

definition NN_WS_HANDSHAKE_CRLF :: string where
  "NN_WS_HANDSHAKE_CRLF = [CHR 0x0D, CHR 0x0A]"

definition NN_WS_HANDSHAKE_TERMSEQ :: string where
  "NN_WS_HANDSHAKE_TERMSEQ = [CHR 0x0D, CHR 0x0A, CHR 0x0D, CHR 0x0A]"

subsection \<open>The matchers (\<^verbatim>\<open>nn_ws_match_token\<close>, \<^verbatim>\<open>nn_ws_match_value\<close>,
  \<^verbatim>\<open>nn_ws_validate_value\<close>)\<close>

datatype match_rc = NN_WS_HANDSHAKE_NOMATCH | NN_WS_HANDSHAKE_MATCH

text \<open>The loop \<^verbatim>\<open>while (*pos == '\x20' && *pos) pos++\<close>.\<close>

function skip_sp :: "string \<Rightarrow> nat \<Rightarrow> nat" where
  "skip_sp str pos =
     (if peek str pos = CHR 0x20 \<and> peek str pos \<noteq> NUL then skip_sp str (pos + 1) else pos)"
  by pat_completeness auto
termination
  by (relation "measure (\<lambda>(str, pos). length str - pos)")
    (auto simp add: peek_def NUL_def split: if_splits)

declare skip_sp.simps [simp del]

text \<open>
  The loops \<^verbatim>\<open>while (*token && *pos)\<close> of \<^verbatim>\<open>nn_ws_match_token\<close>: \<open>None\<close> when the
  loop returns \<^verbatim>\<open>NN_WS_HANDSHAKE_NOMATCH\<close>, else the rest of the token and the position
  at which the loop ends.
\<close>

fun token_loop :: "bool \<Rightarrow> string \<Rightarrow> string \<Rightarrow> nat \<Rightarrow> (string \<times> nat) option" where
  "token_loop ci [] str pos = Some ([], pos)"
| "token_loop ci (t # ts) str pos =
     (if peek str pos = NUL then Some (t # ts, pos)
      else if (if ci then tolower t \<noteq> tolower (peek str pos) else t \<noteq> peek str pos) then None
      else token_loop ci ts str (pos + 1))"

text \<open>
  \<^verbatim>\<open>nn_ws_match_token (token, subj, case_insensitive, ignore_leading_sp)\<close> returns its
  result and the new value of \<^verbatim>\<open>*subj\<close>; \<open>None\<close> is the failure of
  \<^verbatim>\<open>nn_assert (!*token)\<close>.
\<close>

definition nn_ws_match_token :: "string \<Rightarrow> string \<Rightarrow> nat \<Rightarrow> bool \<Rightarrow> bool \<Rightarrow> (match_rc \<times> nat) option" where
  "nn_ws_match_token token str subj case_insensitive ignore_leading_sp =
     (let pos = (if ignore_leading_sp then skip_sp str subj else subj) in
      case token_loop case_insensitive token str pos of
        None \<Rightarrow> Some (NN_WS_HANDSHAKE_NOMATCH, subj)
      | Some (token', pos') \<Rightarrow>
          if peek str pos' = NUL \<and> token' \<noteq> [] then Some (NN_WS_HANDSHAKE_NOMATCH, subj)
          else if token' \<noteq> [] then None
          else Some (NN_WS_HANDSHAKE_MATCH, pos'))"

text \<open>The loops \<^verbatim>\<open>while (*start == '\x20' && start < end) start++\<close> and
  \<^verbatim>\<open>while (*(end - 1) == '\x20' && start < end) end--\<close>.\<close>

function skip_leading :: "string \<Rightarrow> nat \<Rightarrow> nat \<Rightarrow> nat" where
  "skip_leading str start end =
     (if peek str start = CHR 0x20 \<and> start < end then skip_leading str (start + 1) end
      else start)"
  by pat_completeness auto
termination
  by (relation "measure (\<lambda>(str, start, end). end - start)") auto

declare skip_leading.simps [simp del]

function skip_trailing :: "string \<Rightarrow> nat \<Rightarrow> nat \<Rightarrow> nat" where
  "skip_trailing str start end =
     (if peek str (end - 1) = CHR 0x20 \<and> start < end then skip_trailing str start (end - 1)
      else end)"
  by pat_completeness auto
termination
  by (relation "measure (\<lambda>(str, start, end). end)") auto

declare skip_trailing.simps [simp del]

text \<open>
  \<^verbatim>\<open>nn_ws_match_value (termseq, subj, ignore_leading_sp, ignore_trailing_sp, addr, len)\<close>
  returns its result, the new value of \<^verbatim>\<open>*subj\<close>, and what it leaves in \<^verbatim>\<open>*addr\<close>
  (\<open>None\<close> is \<^verbatim>\<open>NULL\<close>) and \<^verbatim>\<open>*len\<close>.
\<close>

definition nn_ws_match_value ::
    "string \<Rightarrow> string \<Rightarrow> nat \<Rightarrow> bool \<Rightarrow> bool \<Rightarrow> match_rc \<times> nat \<times> nat option \<times> nat" where
  "nn_ws_match_value termseq str subj ignore_leading_sp ignore_trailing_sp =
     (case strstr str subj termseq of
        None \<Rightarrow> (NN_WS_HANDSHAKE_NOMATCH, subj, None, 0)
      | Some end \<Rightarrow>
          (let subj' = end + length termseq;
               start = (if ignore_leading_sp then skip_leading str subj end else subj) in
           if start = end then (NN_WS_HANDSHAKE_MATCH, subj', Some start, 0)
           else
             (let end' = (if ignore_trailing_sp then skip_trailing str start end else end) in
              (NN_WS_HANDSHAKE_MATCH, subj', Some start, end' - start))))"

text \<open>The loops \<^verbatim>\<open>while (*expected && *subj)\<close> of \<^verbatim>\<open>nn_ws_validate_value\<close>.\<close>

fun validate_loop :: "bool \<Rightarrow> string \<Rightarrow> string \<Rightarrow> nat \<Rightarrow> match_rc" where
  "validate_loop ci [] str subj = NN_WS_HANDSHAKE_MATCH"
| "validate_loop ci (e # es) str subj =
     (if peek str subj = NUL then NN_WS_HANDSHAKE_MATCH
      else if (if ci then tolower e \<noteq> tolower (peek str subj) else e \<noteq> peek str subj)
      then NN_WS_HANDSHAKE_NOMATCH
      else validate_loop ci es str (subj + 1))"

definition nn_ws_validate_value :: "string \<Rightarrow> string \<Rightarrow> nat \<Rightarrow> nat \<Rightarrow> bool \<Rightarrow> match_rc" where
  "nn_ws_validate_value expected str subj subj_len case_insensitive =
     (if length expected \<noteq> subj_len then NN_WS_HANDSHAKE_NOMATCH
      else validate_loop case_insensitive expected str subj)"


subsection \<open>The handshake object (\<^verbatim>\<open>struct nn_ws_handshake\<close>)\<close>

datatype hs_mode = NN_WS_CLIENT | NN_WS_SERVER

datatype hs_state =
    NN_WS_HANDSHAKE_STATE_IDLE
  | NN_WS_HANDSHAKE_STATE_SERVER_RECV
  | NN_WS_HANDSHAKE_STATE_SERVER_REPLY
  | NN_WS_HANDSHAKE_STATE_CLIENT_SEND
  | NN_WS_HANDSHAKE_STATE_CLIENT_RECV
  | NN_WS_HANDSHAKE_STATE_HANDSHAKE_SENT
  | NN_WS_HANDSHAKE_STATE_STOPPING_TIMER_ERROR
  | NN_WS_HANDSHAKE_STATE_STOPPING_TIMER_DONE
  | NN_WS_HANDSHAKE_STATE_DONE
  | NN_WS_HANDSHAKE_STATE_STOPPING

datatype parse_rc =
    NN_WS_HANDSHAKE_VALID
  | NN_WS_HANDSHAKE_RECV_MORE
  | NN_WS_HANDSHAKE_INVALID

datatype response_code =
    NN_WS_HANDSHAKE_RESPONSE_NULL
  | NN_WS_HANDSHAKE_RESPONSE_OK
  | NN_WS_HANDSHAKE_RESPONSE_TOO_BIG
  | NN_WS_HANDSHAKE_RESPONSE_UNUSED2
  | NN_WS_HANDSHAKE_RESPONSE_WSPROTO
  | NN_WS_HANDSHAKE_RESPONSE_WSVERSION
  | NN_WS_HANDSHAKE_RESPONSE_NNPROTO
  | NN_WS_HANDSHAKE_RESPONSE_NOTPEER
  | NN_WS_HANDSHAKE_RESPONSE_UNKNOWNTYPE

text \<open>The identifiers of the scalability protocols, which the headers \<^verbatim>\<open>pair.h\<close>,
  \<^verbatim>\<open>reqrep.h\<close>, ... define.\<close>

datatype sp =
    NN_PAIR | NN_REQ | NN_REP | NN_PUB | NN_SUB
  | NN_SURVEYOR | NN_RESPONDENT | NN_PUSH | NN_PULL | NN_BUS

definition NN_WS_HANDSHAKE_SP_MAP :: "(sp \<times> string) list" where
  "NN_WS_HANDSHAKE_SP_MAP =
     [(NN_PAIR, ''x-nanomsg-pair''),
      (NN_REQ, ''x-nanomsg-req''),
      (NN_REP, ''x-nanomsg-rep''),
      (NN_PUB, ''x-nanomsg-pub''),
      (NN_SUB, ''x-nanomsg-sub''),
      (NN_SURVEYOR, ''x-nanomsg-surveyor''),
      (NN_RESPONDENT, ''x-nanomsg-respondent''),
      (NN_PUSH, ''x-nanomsg-push''),
      (NN_PULL, ''x-nanomsg-pull''),
      (NN_BUS, ''x-nanomsg-bus'')]"

text \<open>
  Modelled from the spec: the timer of \<^verbatim>\<open>aio/timer.h\<close>, by its contract in the
  specification: \<open>start\<close> arms it, \<open>stop\<close> requests cancellation, and it is idle again once
  it has posted \<open>STOPPED\<close>.
\<close>

datatype timer_state = TIMER_IDLE | TIMER_ACTIVE | TIMER_STOPPING

datatype hs_result = NN_WS_HANDSHAKE_OK | NN_WS_HANDSHAKE_ERROR

datatype hs_buffer = OPENING_HS | RESPONSE

text \<open>
  \<^verbatim>\<open>struct nn_ws_handshake\<close>. The two buffers are the lists of their cells,
  \<^verbatim>\<open>sizeof\<close> being their length. A parsed slice is a pointer into the buffer that was
  parsed, kept as an offset (\<open>None\<close> for \<^verbatim>\<open>NULL\<close>), and its length. The collaborators
  are kept by what the handshake does to them: \<open>timer\<close> is the state of the timer,
  \<open>usock_owned\<close> tells whether the handshake owns the socket, \<open>recv_posted\<close> is the receive
  posted to the socket and not yet completed (buffer, offset, length), \<open>sent\<close> lists the
  buffers submitted to \<^verbatim>\<open>nn_usock_send\<close>, \<open>done_raised\<close> the results raised through the event
  \<^verbatim>\<open>done\<close>, and \<open>stopped\<close> counts the calls of \<^verbatim>\<open>nn_fsm_stopped\<close>.
\<close>

record nn_ws_handshake =
  state :: hs_state
  mode :: hs_mode
  timer :: timer_state
  timeout :: nat
  usock_owned :: bool
  recv_posted :: "(hs_buffer \<times> nat \<times> nat) option"
  sent :: "string list"
  done_raised :: "hs_result list"
  stopped :: nat
  resource :: string
  remote_host :: string
  opening_hs :: string
  response :: string
  recv_pos :: nat
  recv_len :: nat
  retries :: nat
  host :: "nat option"
  host_len :: nat
  origin :: "nat option"
  origin_len :: nat
  key :: "nat option"
  key_len :: nat
  upgrade :: "nat option"
  upgrade_len :: nat
  conn :: "nat option"
  conn_len :: nat
  version :: "nat option"
  version_len :: nat
  protocol :: "nat option"
  protocol_len :: nat
  extensions :: "nat option"
  extensions_len :: nat
  uri :: "nat option"
  uri_len :: nat
  status_code :: "nat option"
  status_code_len :: nat
  reason_phrase :: "nat option"
  reason_phrase_len :: nat
  server :: "nat option"
  server_len :: nat
  accept_key :: "nat option"
  accept_key_len :: nat
  expected_accept_key :: string
  response_code :: response_code

subsection \<open>The request parser (\<^verbatim>\<open>nn_ws_handshake_parse_client_opening\<close>)\<close>

text \<open>
  One pass of the loop \<^verbatim>\<open>while (strlen (pos))\<close> over the header lines: either the
  \<^verbatim>\<open>break\<close> at the empty line, or the result \<^verbatim>\<open>rc\<close> of \<^verbatim>\<open>nn_ws_match_value\<close>
  with the new position and object.
\<close>

datatype hdr_step = HDR_BREAK nat | HDR_NEXT match_rc nat nn_ws_handshake

definition client_header_step :: "string \<Rightarrow> nat \<Rightarrow> nn_ws_handshake \<Rightarrow> hdr_step option" where
  "client_header_step str pos self =
     (case nn_ws_match_token ''Host:'' str pos True False of
        None \<Rightarrow> None
      | Some (rc, pos) \<Rightarrow>
          if rc = NN_WS_HANDSHAKE_MATCH then
            (case nn_ws_match_value NN_WS_HANDSHAKE_CRLF str pos True True of
               (rc, pos, addr, len) \<Rightarrow>
                 Some (HDR_NEXT rc pos (self\<lparr>host := addr, host_len := len\<rparr>)))
          else
       (case nn_ws_match_token ''Origin:'' str pos True False of
          None \<Rightarrow> None
        | Some (rc, pos) \<Rightarrow>
            if rc = NN_WS_HANDSHAKE_MATCH then
              (case nn_ws_match_value NN_WS_HANDSHAKE_CRLF str pos True True of
                 (rc, pos, addr, len) \<Rightarrow>
                   Some (HDR_NEXT rc pos (self\<lparr>origin := addr, origin_len := len\<rparr>)))
            else
         (case nn_ws_match_token ''Sec-WebSocket-Key:'' str pos True False of
            None \<Rightarrow> None
          | Some (rc, pos) \<Rightarrow>
              if rc = NN_WS_HANDSHAKE_MATCH then
                (case nn_ws_match_value NN_WS_HANDSHAKE_CRLF str pos True True of
                   (rc, pos, addr, len) \<Rightarrow>
                     Some (HDR_NEXT rc pos (self\<lparr>key := addr, key_len := len\<rparr>)))
              else
           (case nn_ws_match_token ''Upgrade:'' str pos True False of
              None \<Rightarrow> None
            | Some (rc, pos) \<Rightarrow>
                if rc = NN_WS_HANDSHAKE_MATCH then
                  (case nn_ws_match_value NN_WS_HANDSHAKE_CRLF str pos True True of
                     (rc, pos, addr, len) \<Rightarrow>
                       Some (HDR_NEXT rc pos (self\<lparr>upgrade := addr, upgrade_len := len\<rparr>)))
                else
             (case nn_ws_match_token ''Connection:'' str pos True False of
                None \<Rightarrow> None
              | Some (rc, pos) \<Rightarrow>
                  if rc = NN_WS_HANDSHAKE_MATCH then
                    (case nn_ws_match_value NN_WS_HANDSHAKE_CRLF str pos True True of
                       (rc, pos, addr, len) \<Rightarrow>
                         Some (HDR_NEXT rc pos (self\<lparr>conn := addr, conn_len := len\<rparr>)))
                  else
               (case nn_ws_match_token ''Sec-WebSocket-Version:'' str pos True False of
                  None \<Rightarrow> None
                | Some (rc, pos) \<Rightarrow>
                    if rc = NN_WS_HANDSHAKE_MATCH then
                      (case nn_ws_match_value NN_WS_HANDSHAKE_CRLF str pos True True of
                         (rc, pos, addr, len) \<Rightarrow>
                           Some (HDR_NEXT rc pos (self\<lparr>version := addr, version_len := len\<rparr>)))
                    else
                 (case nn_ws_match_token ''Sec-WebSocket-Protocol:'' str pos True False of
                    None \<Rightarrow> None
                  | Some (rc, pos) \<Rightarrow>
                      if rc = NN_WS_HANDSHAKE_MATCH then
                        (case nn_ws_match_value NN_WS_HANDSHAKE_CRLF str pos True True of
                           (rc, pos, addr, len) \<Rightarrow>
                             Some (HDR_NEXT rc pos (self\<lparr>protocol := addr, protocol_len := len\<rparr>)))
                      else
                   (case nn_ws_match_token ''Sec-WebSocket-Extensions:'' str pos True False of
                      None \<Rightarrow> None
                    | Some (rc, pos) \<Rightarrow>
                        if rc = NN_WS_HANDSHAKE_MATCH then
                          (case nn_ws_match_value NN_WS_HANDSHAKE_CRLF str pos True True of
                             (rc, pos, addr, len) \<Rightarrow>
                               Some (HDR_NEXT rc pos (self\<lparr>extensions := addr, extensions_len := len\<rparr>)))
                        else
                     (case nn_ws_match_token NN_WS_HANDSHAKE_CRLF str pos True False of
                        None \<Rightarrow> None
                      | Some (rc, pos) \<Rightarrow>
                          if rc = NN_WS_HANDSHAKE_MATCH then Some (HDR_BREAK pos)
                          else
                            (case nn_ws_match_value NN_WS_HANDSHAKE_CRLF str pos True True of
                               (rc, pos, addr, len) \<Rightarrow> Some (HDR_NEXT rc pos self)))))))))))"

subsection \<open>Where the matchers leave the position\<close>

lemma find_sub_bound: "find_sub s n = Some k \<Longrightarrow> k + length n \<le> length s"
proof (induction s arbitrary: k)
  case Nil then show ?case by (simp split: if_splits)
next
  case (Cons h hs)
  show ?case
  proof (cases "prefix n (h # hs)")
    case True
    with Cons.prems have "k = 0" by simp
    with prefix_length_le [OF True] show ?thesis by simp
  next
    case False
    with Cons.prems obtain k' where k': "find_sub hs n = Some k'" "k = Suc k'" by auto
    from Cons.IH [OF k'(1)] k'(2) show ?thesis by simp
  qed
qed

lemma find_sub_take: "find_sub s n = Some k \<Longrightarrow> take (length n) (drop k s) = n"
proof (induction s arbitrary: k)
  case Nil then show ?case by (simp split: if_splits)
next
  case (Cons h hs)
  show ?case
  proof (cases "prefix n (h # hs)")
    case True
    with Cons.prems have "k = 0" by simp
    with True show ?thesis by (auto simp add: prefix_def)
  next
    case False
    with Cons.prems obtain k' where k': "find_sub hs n = Some k'" "k = Suc k'" by auto
    from Cons.IH [OF k'(1)] k'(2) show ?thesis by simp
  qed
qed

lemma find_sub_None: "find_sub s n = None \<longleftrightarrow> \<not> sublist n s"
proof (induction s)
  case Nil then show ?case by simp
next
  case (Cons h hs) then show ?case by (auto simp add: sublist_Cons_right)
qed

lemma strstr_bound:
  assumes "strstr str pos t = Some e" "t \<noteq> []"
  shows "pos \<le> e" "e + length t \<le> length str"
proof -
  from assms(1) obtain k where k: "find_sub (drop pos str) t = Some k" "e = pos + k"
    by (auto simp add: strstr_def)
  from find_sub_bound [OF k(1)] assms(2) k(2) show "pos \<le> e" "e + length t \<le> length str"
    by (cases t; simp)+
qed

lemma skip_sp_bounds: "pos \<le> skip_sp str pos"
proof (induction str pos rule: skip_sp.induct)
  case (1 str pos)
  then show ?case by (auto simp add: skip_sp.simps [of str pos])
qed

lemma skip_leading_bounds: "start \<le> e \<Longrightarrow> start \<le> skip_leading str start e \<and> skip_leading str start e \<le> e"
proof (induction str start e rule: skip_leading.induct)
  case (1 str start e)
  show ?case
  proof (cases "peek str start = CHR 0x20 \<and> start < e")
    case True
    with 1 have "Suc start \<le> skip_leading str (Suc start) e \<and> skip_leading str (Suc start) e \<le> e"
      by simp
    moreover have "skip_leading str start e = skip_leading str (Suc start) e"
      by (subst skip_leading.simps) (use True in simp)
    ultimately show ?thesis by simp
  next
    case False
    have "skip_leading str start e = start"
      by (subst skip_leading.simps) (simp only: False if_False)
    with 1 show ?thesis by simp
  qed
qed

lemma skip_trailing_bounds: "start \<le> e \<Longrightarrow> start \<le> skip_trailing str start e \<and> skip_trailing str start e \<le> e"
proof (induction str start e rule: skip_trailing.induct)
  case (1 str start e)
  show ?case
  proof (cases "peek str (e - 1) = CHR 0x20 \<and> start < e")
    case True
    then have "start \<le> e - 1" by linarith
    with 1 True have "start \<le> skip_trailing str start (e - 1) \<and> skip_trailing str start (e - 1) \<le> e - 1"
      by simp
    moreover have "skip_trailing str start e = skip_trailing str start (e - 1)"
      by (subst skip_trailing.simps) (use True in simp)
    ultimately show ?thesis by arith
  next
    case False
    have "skip_trailing str start e = e"
      by (subst skip_trailing.simps) (simp only: False if_False)
    with 1 show ?thesis by simp
  qed
qed

lemma token_loop_mono: "token_loop ci t str pos = Some (t', pos') \<Longrightarrow> pos \<le> pos'"
  by (induction ci t str pos rule: token_loop.induct) (auto split: if_splits)

lemma nn_ws_match_token_mono:
  "nn_ws_match_token t str subj ci sp = Some (rc, pos') \<Longrightarrow> subj \<le> pos'"
  using skip_sp_bounds [of subj str]
  by (auto simp add: nn_ws_match_token_def Let_def split: option.splits if_splits dest!: token_loop_mono)

lemma nn_ws_match_token_nomatch:
  "nn_ws_match_token t str subj ci sp = Some (NN_WS_HANDSHAKE_NOMATCH, pos') \<Longrightarrow> pos' = subj"
  by (auto simp add: nn_ws_match_token_def Let_def split: option.splits if_splits)

lemma nn_ws_match_value_nomatch:
  "nn_ws_match_value t str subj a b = (NN_WS_HANDSHAKE_NOMATCH, pos', addr, len) \<Longrightarrow>
     pos' = subj \<and> addr = None \<and> len = 0"
  by (auto simp add: nn_ws_match_value_def Let_def split: option.splits if_splits)

lemma nn_ws_match_value_match:
  assumes "nn_ws_match_value t str subj a b = (NN_WS_HANDSHAKE_MATCH, pos', addr, len)" "t \<noteq> []"
  shows "subj < pos' \<and> pos' \<le> length str \<and> (\<exists>p. addr = Some p \<and> p + len \<le> length str)"
proof -
  from assms(1) obtain e where e: "strstr str subj t = Some e"
    by (auto simp add: nn_ws_match_value_def split: option.splits)
  note b = strstr_bound [OF e assms(2)]
  define start where "start = (if a then skip_leading str subj e else subj)"
  have s: "subj \<le> start" "start \<le> e"
    using skip_leading_bounds [OF b(1), of str] b(1) by (auto simp add: start_def)
  define e' where "e' = (if b then skip_trailing str start e else e)"
  have e': "start \<le> e'" "e' \<le> e"
    using skip_trailing_bounds [OF s(2), of str] s(2) by (auto simp add: e'_def)
  from assms(1) e have "pos' = e + length t" "addr = Some start" "len = 0 \<or> len = e' - start"
    by (auto simp add: nn_ws_match_value_def Let_def start_def e'_def split: if_splits)
  with b s e' assms(2) show ?thesis by (cases t) auto
qed

lemma CRLF_nonempty: "NN_WS_HANDSHAKE_CRLF \<noteq> []"
  by (simp add: NN_WS_HANDSHAKE_CRLF_def)

lemma nn_ws_match_value_slice:
  assumes "nn_ws_match_value t str subj a b = (rc, pos', addr, len)" "t \<noteq> []"
  shows "case addr of None \<Rightarrow> len = 0 | Some p \<Rightarrow> p + len \<le> length str"
proof (cases rc)
  case NN_WS_HANDSHAKE_NOMATCH
  with nn_ws_match_value_nomatch [of t str subj a b pos' addr len] assms(1) show ?thesis by simp
next
  case NN_WS_HANDSHAKE_MATCH
  with nn_ws_match_value_match [of t str subj a b pos' addr len] assms show ?thesis by auto
qed

lemma field_cases:
  assumes "(case nn_ws_match_token t str pos True False of
              None \<Rightarrow> None
            | Some (rc, p) \<Rightarrow>
                if rc = NN_WS_HANDSHAKE_MATCH then
                  (case nn_ws_match_value NN_WS_HANDSHAKE_CRLF str p True True of
                     (rc, p', addr, len) \<Rightarrow> Some (HDR_NEXT rc p' (upd addr len)))
                else rest p) = Some r"
  obtains (hit) p rc p' addr len where "pos \<le> p"
      "nn_ws_match_value NN_WS_HANDSHAKE_CRLF str p True True = (rc, p', addr, len)"
      "r = HDR_NEXT rc p' (upd addr len)"
    | (miss) "rest pos = Some r"
proof -
  from assms obtain rc p where t: "nn_ws_match_token t str pos True False = Some (rc, p)"
    by (auto split: option.splits)
  show thesis
  proof (cases rc)
    case NN_WS_HANDSHAKE_NOMATCH
    with t nn_ws_match_token_nomatch [of t str pos True False p] have "p = pos" by simp
    with assms t NN_WS_HANDSHAKE_NOMATCH show thesis by (auto intro: miss)
  next
    case NN_WS_HANDSHAKE_MATCH
    obtain rc' p' addr len where
      v: "nn_ws_match_value NN_WS_HANDSHAKE_CRLF str p True True = (rc', p', addr, len)"
      by (cases "nn_ws_match_value NN_WS_HANDSHAKE_CRLF str p True True") auto
    from nn_ws_match_token_mono [OF t] have "pos \<le> p" .
    moreover note v
    moreover from assms t NN_WS_HANDSHAKE_MATCH v have "r = HDR_NEXT rc' p' (upd addr len)" by simp
    ultimately show thesis by (rule hit)
  qed
qed

lemma last_cases:
  assumes "(case nn_ws_match_token NN_WS_HANDSHAKE_CRLF str pos True False of
              None \<Rightarrow> None
            | Some (rc, p) \<Rightarrow>
                if rc = NN_WS_HANDSHAKE_MATCH then Some (HDR_BREAK p)
                else
                  (case nn_ws_match_value NN_WS_HANDSHAKE_CRLF str p True True of
                     (rc, p', addr, len) \<Rightarrow> Some (HDR_NEXT rc p' self))) = Some r"
  obtains (brk) p where "pos \<le> p" "r = HDR_BREAK p"
    | (skip) rc p' addr len where
      "nn_ws_match_value NN_WS_HANDSHAKE_CRLF str pos True True = (rc, p', addr, len)"
      "r = HDR_NEXT rc p' self"
proof -
  from assms obtain rc p where t: "nn_ws_match_token NN_WS_HANDSHAKE_CRLF str pos True False = Some (rc, p)"
    by (auto split: option.splits)
  show thesis
  proof (cases rc)
    case NN_WS_HANDSHAKE_NOMATCH
    with t nn_ws_match_token_nomatch [of _ str pos True False p] have p: "p = pos" by simp
    obtain rc' p' addr len where
      v: "nn_ws_match_value NN_WS_HANDSHAKE_CRLF str pos True True = (rc', p', addr, len)"
      by (cases "nn_ws_match_value NN_WS_HANDSHAKE_CRLF str pos True True") auto
    from assms t NN_WS_HANDSHAKE_NOMATCH v p have "r = HDR_NEXT rc' p' self" by simp
    with v show thesis by (rule skip)
  next
    case NN_WS_HANDSHAKE_MATCH
    from nn_ws_match_token_mono [OF t] have "pos \<le> p" .
    moreover from assms t NN_WS_HANDSHAKE_MATCH have "r = HDR_BREAK p" by simp
    ultimately show thesis by (rule brk)
  qed
qed

lemma client_header_step_advance:
  assumes "client_header_step str pos self = Some (HDR_NEXT NN_WS_HANDSHAKE_MATCH pos' self')"
  shows "pos < pos'"
  using assms unfolding client_header_step_def
  by (elim field_cases last_cases)
    (auto dest!: nn_ws_match_value_match [OF _ CRLF_nonempty])

text \<open>What the parsing part of a parser ends with: the return of
  \<^verbatim>\<open>NN_WS_HANDSHAKE_RECV_MORE\<close>, or the validation that follows the loop, with the
  position and the object at that point.\<close>

datatype parse_phase = PHASE_RECV_MORE nn_ws_handshake | PHASE_PARSED nat nn_ws_handshake

text \<open>The loop \<^verbatim>\<open>while (strlen (pos))\<close>. It ends because a value that matched moved the
  position forward.\<close>

function client_header_loop :: "string \<Rightarrow> nat \<Rightarrow> nn_ws_handshake \<Rightarrow> parse_phase option" where
  "client_header_loop str pos self =
     (if pos < length str then
        (case client_header_step str pos self of
           None \<Rightarrow> None
         | Some (HDR_BREAK pos') \<Rightarrow> Some (PHASE_PARSED pos' self)
         | Some (HDR_NEXT rc pos' self') \<Rightarrow>
             if rc \<noteq> NN_WS_HANDSHAKE_MATCH then Some (PHASE_RECV_MORE self')
             else client_header_loop str pos' self')
      else Some (PHASE_PARSED pos self))"
  by pat_completeness auto
termination
proof (relation "measure (\<lambda>(str, pos, self). length str - pos)")
  fix str :: string and pos self x2 x x22 x222 and x21 :: match_rc
  assume "pos < length str" "client_header_step str pos self = Some x2"
    "x2 = HDR_NEXT x21 x22 x222" "\<not> x21 \<noteq> NN_WS_HANDSHAKE_MATCH"
  then have "pos < x22" using client_header_step_advance [of str pos self x22 x222] by simp
  with \<open>pos < length str\<close>
  show "((str, x22, x222), (str, pos, self)) \<in> measure (\<lambda>(str, pos, self). length str - pos)"
    by simp
qed simp

declare client_header_loop.simps [simp del]

text \<open>
  The parser up to the validation: the two assertions on the buffer (\<open>None\<close> when one
  fails), the search for the terminating sequence, the reset of the fields, the request line,
  the header loop and \<^verbatim>\<open>nn_assert (strlen (pos) == 0)\<close>.
\<close>

definition client_opening_parse :: "nn_ws_handshake \<Rightarrow> parse_phase option" where
  "client_opening_parse self =
     (if NUL \<notin> set (opening_hs self) then None
      else
        let str = cstr (opening_hs self) 0 in
        if \<not> length str < length (opening_hs self) then None
        else if strstr str 0 NN_WS_HANDSHAKE_TERMSEQ = None then Some (PHASE_RECV_MORE self)
        else
          let self = self\<lparr>host := None, origin := None, key := None, upgrade := None,
                conn := None, version := None, protocol := None, uri := None,
                host_len := 0, origin_len := 0, key_len := 0, upgrade_len := 0,
                conn_len := 0, version_len := 0, protocol_len := 0, uri_len := 0,
                response_code := NN_WS_HANDSHAKE_RESPONSE_NULL\<rparr> in
          case nn_ws_match_token ''GET '' str 0 False False of
            None \<Rightarrow> None
          | Some (rc, pos) \<Rightarrow>
              if rc = NN_WS_HANDSHAKE_NOMATCH then Some (PHASE_RECV_MORE self)
              else
                (case nn_ws_match_value '' '' str pos False False of
                   (rc, pos, addr, len) \<Rightarrow>
                     let self = self\<lparr>uri := addr, uri_len := len\<rparr> in
                     if rc = NN_WS_HANDSHAKE_NOMATCH then Some (PHASE_RECV_MORE self)
                     else
                       (case nn_ws_match_token ''HTTP/1.1'' str pos False False of
                          None \<Rightarrow> None
                        | Some (rc, pos) \<Rightarrow>
                            if rc = NN_WS_HANDSHAKE_NOMATCH then Some (PHASE_RECV_MORE self)
                            else
                              (case nn_ws_match_token NN_WS_HANDSHAKE_CRLF str pos False False of
                                 None \<Rightarrow> None
                               | Some (rc, pos) \<Rightarrow>
                                   if rc = NN_WS_HANDSHAKE_NOMATCH then Some (PHASE_RECV_MORE self)
                                   else
                                     (case client_header_loop str pos self of
                                        None \<Rightarrow> None
                                      | Some (PHASE_RECV_MORE self) \<Rightarrow> Some (PHASE_RECV_MORE self)
                                      | Some (PHASE_PARSED pos self) \<Rightarrow>
                                          if pos < length str then None
                                          else Some (PHASE_PARSED pos self))))))"

text \<open>The loop over \<^verbatim>\<open>NN_WS_HANDSHAKE_SP_MAP\<close>; \<open>ispeer\<close> is
  \<^verbatim>\<open>nn_pipebase_ispeer (self->pipebase, _)\<close>, and \<open>p\<close> the non-null \<^verbatim>\<open>self->protocol\<close>.\<close>

fun sp_lookup :: "(sp \<times> string) list \<Rightarrow> (sp \<Rightarrow> bool) \<Rightarrow> string \<Rightarrow> nat \<Rightarrow> nn_ws_handshake \<Rightarrow>
    parse_rc \<times> nn_ws_handshake" where
  "sp_lookup [] ispeer str p self =
     (NN_WS_HANDSHAKE_INVALID, self\<lparr>response_code := NN_WS_HANDSHAKE_RESPONSE_UNKNOWNTYPE\<rparr>)"
| "sp_lookup ((sp, ws_sp) # m) ispeer str p self =
     (if nn_ws_validate_value ws_sp str p (protocol_len self) True \<noteq> NN_WS_HANDSHAKE_NOMATCH then
        if ispeer sp
        then (NN_WS_HANDSHAKE_VALID, self\<lparr>response_code := NN_WS_HANDSHAKE_RESPONSE_OK\<rparr>)
        else (NN_WS_HANDSHAKE_INVALID, self\<lparr>response_code := NN_WS_HANDSHAKE_RESPONSE_NOTPEER\<rparr>)
      else sp_lookup m ispeer str p self)"

text \<open>The validation, on the C string \<open>str\<close> the slices point into.\<close>

definition client_opening_validate ::
    "(sp \<Rightarrow> bool) \<Rightarrow> string \<Rightarrow> nn_ws_handshake \<Rightarrow> parse_rc \<times> nn_ws_handshake" where
  "client_opening_validate ispeer str self =
     (if host self = None \<or> upgrade self = None \<or> conn self = None \<or> key self = None \<or>
         version self = None
      then (NN_WS_HANDSHAKE_INVALID, self\<lparr>response_code := NN_WS_HANDSHAKE_RESPONSE_WSPROTO\<rparr>)
      else if nn_ws_validate_value ''13'' str (the (version self)) (version_len self) True
          \<noteq> NN_WS_HANDSHAKE_MATCH
      then (NN_WS_HANDSHAKE_INVALID, self\<lparr>response_code := NN_WS_HANDSHAKE_RESPONSE_WSVERSION\<rparr>)
      else if nn_ws_validate_value ''websocket'' str (the (upgrade self)) (upgrade_len self) True
          \<noteq> NN_WS_HANDSHAKE_MATCH
      then (NN_WS_HANDSHAKE_INVALID, self\<lparr>response_code := NN_WS_HANDSHAKE_RESPONSE_WSPROTO\<rparr>)
      else if nn_ws_validate_value ''Upgrade'' str (the (conn self)) (conn_len self) True
          \<noteq> NN_WS_HANDSHAKE_MATCH
      then (NN_WS_HANDSHAKE_INVALID, self\<lparr>response_code := NN_WS_HANDSHAKE_RESPONSE_WSPROTO\<rparr>)
      else
        (case protocol self of
           Some p \<Rightarrow> sp_lookup NN_WS_HANDSHAKE_SP_MAP ispeer str p self
         | None \<Rightarrow>
             if ispeer NN_PAIR
             then (NN_WS_HANDSHAKE_VALID, self\<lparr>response_code := NN_WS_HANDSHAKE_RESPONSE_OK\<rparr>)
             else (NN_WS_HANDSHAKE_INVALID,
                   self\<lparr>response_code := NN_WS_HANDSHAKE_RESPONSE_NOTPEER\<rparr>)))"

text \<open>\<^verbatim>\<open>nn_ws_handshake_parse_client_opening\<close> returns its result and the object;
  \<open>None\<close> is a failed assertion.\<close>

definition nn_ws_handshake_parse_client_opening ::
    "(sp \<Rightarrow> bool) \<Rightarrow> nn_ws_handshake \<Rightarrow> (parse_rc \<times> nn_ws_handshake) option" where
  "nn_ws_handshake_parse_client_opening ispeer self =
     (case client_opening_parse self of
        None \<Rightarrow> None
      | Some (PHASE_RECV_MORE self) \<Rightarrow> Some (NN_WS_HANDSHAKE_RECV_MORE, self)
      | Some (PHASE_PARSED pos self') \<Rightarrow>
          Some (client_opening_validate ispeer (cstr (opening_hs self) 0) self'))"


subsection \<open>The slices of a parsed request\<close>

text \<open>
  The bytes of a slice of the C string \<open>str\<close> (none for a slice that was not captured), and
  the comparison of two strings that ignores the case of letters.
\<close>

definition field :: "string \<Rightarrow> nat option \<Rightarrow> nat \<Rightarrow> string" where
  "field str addr len = (case addr of None \<Rightarrow> [] | Some p \<Rightarrow> take len (drop p str))"

definition ci_equal :: "string \<Rightarrow> string \<Rightarrow> bool" where
  "ci_equal a b = (map tolower a = map tolower b)"

text \<open>A slice lies inside the C string, and one that was not captured has the length 0; so
  it is for the slices that the request parser resets.\<close>

definition slice_ok :: "string \<Rightarrow> nat option \<Rightarrow> nat \<Rightarrow> bool" where
  "slice_ok str addr len = (case addr of None \<Rightarrow> len = 0 | Some p \<Rightarrow> p + len \<le> length str)"

definition request_slices_ok :: "string \<Rightarrow> nn_ws_handshake \<Rightarrow> bool" where
  "request_slices_ok str self =
     (slice_ok str (host self) (host_len self) \<and>
      slice_ok str (origin self) (origin_len self) \<and>
      slice_ok str (key self) (key_len self) \<and>
      slice_ok str (upgrade self) (upgrade_len self) \<and>
      slice_ok str (conn self) (conn_len self) \<and>
      slice_ok str (version self) (version_len self) \<and>
      slice_ok str (protocol self) (protocol_len self) \<and>
      slice_ok str (uri self) (uri_len self))"

lemma cstr_no_NUL: "NUL \<notin> set (cstr buf p)"
  unfolding cstr_def by (auto dest: set_takeWhileD)



lemma strstr_0_None: "strstr str 0 t = None \<longleftrightarrow> \<not> sublist t str"
  by (simp add: strstr_def find_sub_None)

lemma validate_loop_iff:
  assumes "NUL \<notin> set str"
  shows "p + length e \<le> length str \<Longrightarrow>
    (validate_loop True e str p = NN_WS_HANDSHAKE_MATCH) = ci_equal e (take (length e) (drop p str))"
proof (induction e arbitrary: p)
  case Nil
  then show ?case by (simp add: ci_equal_def)
next
  case (Cons a e)
  then have p: "p < length str" and l: "Suc p + length e \<le> length str" by simp_all
  from assms nth_mem [OF p] have n: "str ! p \<noteq> NUL" by auto
  from p have k: "peek str p = str ! p" by (simp add: peek_def)
  have d: "take (Suc (length e)) (drop p str) = str ! p # take (length e) (drop (Suc p) str)"
    using Cons_nth_drop_Suc [OF p, symmetric] by simp
  from Cons.IH [OF l] n show ?case
    by (auto simp add: d k ci_equal_def)
qed

lemma nn_ws_validate_value_iff:
  assumes "NUL \<notin> set str" "slice_ok str (Some p) len"
  shows "(nn_ws_validate_value e str p len True = NN_WS_HANDSHAKE_MATCH) =
     ci_equal e (field str (Some p) len)"
proof (cases "length e = len")
  case True
  with validate_loop_iff [OF assms(1), of p e] assms(2) show ?thesis
    by (simp add: nn_ws_validate_value_def field_def slice_ok_def)
next
  case False
  from assms(2) have "length (field str (Some p) len) = len"
    by (simp add: field_def slice_ok_def)
  with False have "\<not> ci_equal e (field str (Some p) len)"
    unfolding ci_equal_def by (metis length_map)
  with False show ?thesis by (simp add: nn_ws_validate_value_def)
qed

lemma match_value_slice_ok:
  "nn_ws_match_value NN_WS_HANDSHAKE_CRLF str subj a b = (rc, pos', addr, len) \<Longrightarrow>
   slice_ok str addr len"
  using nn_ws_match_value_slice [OF _ CRLF_nonempty, of str subj a b rc pos' addr len]
  by (simp add: slice_ok_def)

lemma client_header_step_slices:
  assumes "client_header_step str pos self = Some (HDR_NEXT rc pos' self')"
    "request_slices_ok str self"
  shows "request_slices_ok str self'"
  using assms unfolding client_header_step_def
  by (elim field_cases last_cases)
    (auto simp add: request_slices_ok_def dest!: match_value_slice_ok)

lemma client_header_loop_slices:
  "client_header_loop str pos self = Some (PHASE_PARSED pos' self') \<Longrightarrow>
   request_slices_ok str self \<Longrightarrow> request_slices_ok str self'"
proof (induction str pos self rule: client_header_loop.induct)
  case (1 str pos self)
  show ?case
  proof (cases "pos < length str")
    case False
    with "1.prems" show ?thesis by (simp add: client_header_loop.simps [of str pos self])
  next
    case True
    show ?thesis
    proof (cases "client_header_step str pos self")
      case None
      with True "1.prems" show ?thesis by (simp add: client_header_loop.simps [of str pos self])
    next
      case (Some r)
      show ?thesis
      proof (cases r)
        case (HDR_BREAK p)
        with Some True "1.prems" show ?thesis
          by (simp add: client_header_loop.simps [of str pos self])
      next
        case (HDR_NEXT rc p s)
        with Some True "1.prems" have rc: "rc = NN_WS_HANDSHAKE_MATCH"
          and l: "client_header_loop str p s = Some (PHASE_PARSED pos' self')"
          by (auto simp add: client_header_loop.simps [of str pos self] split: if_splits)
        from client_header_step_slices [OF Some [unfolded HDR_NEXT] "1.prems"(2)]
        have "request_slices_ok str s" .
        with "1.IH" [OF True Some HDR_NEXT _ l] rc show ?thesis by simp
      qed
    qed
  qed
qed

lemma client_opening_parse_slices:
  assumes "client_opening_parse self = Some (PHASE_PARSED pos s)"
  shows "request_slices_ok (cstr (opening_hs self) 0) s"
proof -
  let ?str = "cstr (opening_hs self) 0"
  have *: "request_slices_ok ?str s"
    if "nn_ws_match_value '' '' ?str p False False = (rc, p', addr, len)"
      and "client_header_loop ?str q (self\<lparr>host := None, origin := None, key := None, upgrade := None,
                conn := None, version := None, protocol := None, uri := None,
                host_len := 0, origin_len := 0, key_len := 0, upgrade_len := 0,
                conn_len := 0, version_len := 0, protocol_len := 0, uri_len := 0,
                response_code := NN_WS_HANDSHAKE_RESPONSE_NULL, uri := addr, uri_len := len\<rparr>)
           = Some (PHASE_PARSED pos' s)"
    for p rc p' addr len q pos'
  proof (rule client_header_loop_slices [OF that(2)])
    from nn_ws_match_value_slice [OF that(1)]
    show "request_slices_ok ?str (self\<lparr>host := None, origin := None, key := None, upgrade := None,
                conn := None, version := None, protocol := None, uri := None,
                host_len := 0, origin_len := 0, key_len := 0, upgrade_len := 0,
                conn_len := 0, version_len := 0, protocol_len := 0, uri_len := 0,
                response_code := NN_WS_HANDSHAKE_RESPONSE_NULL, uri := addr, uri_len := len\<rparr>)"
      by (simp add: request_slices_ok_def slice_ok_def)
  qed
  from assms show ?thesis
    unfolding client_opening_parse_def
    by (auto simp add: Let_def split: if_splits option.splits prod.splits parse_phase.splits
        dest: *)
qed

text \<open>The C string in the request buffer, which the slices of a request point into.\<close>

definition request_text :: "nn_ws_handshake \<Rightarrow> string" where
  "request_text self = cstr (opening_hs self) 0"

lemma client_opening_validate_rfc:
  assumes "NUL \<notin> set str" "request_slices_ok str s"
  shows "client_opening_validate ispeer str s =
     (if host s = None \<or> upgrade s = None \<or> conn s = None \<or> key s = None \<or> version s = None
      then (NN_WS_HANDSHAKE_INVALID, s\<lparr>response_code := NN_WS_HANDSHAKE_RESPONSE_WSPROTO\<rparr>)
      else if \<not> ci_equal ''13'' (field str (version s) (version_len s))
      then (NN_WS_HANDSHAKE_INVALID, s\<lparr>response_code := NN_WS_HANDSHAKE_RESPONSE_WSVERSION\<rparr>)
      else if \<not> ci_equal ''websocket'' (field str (upgrade s) (upgrade_len s))
      then (NN_WS_HANDSHAKE_INVALID, s\<lparr>response_code := NN_WS_HANDSHAKE_RESPONSE_WSPROTO\<rparr>)
      else if \<not> ci_equal ''Upgrade'' (field str (conn s) (conn_len s))
      then (NN_WS_HANDSHAKE_INVALID, s\<lparr>response_code := NN_WS_HANDSHAKE_RESPONSE_WSPROTO\<rparr>)
      else
        (case protocol s of
           Some p \<Rightarrow> sp_lookup NN_WS_HANDSHAKE_SP_MAP ispeer str p s
         | None \<Rightarrow>
             if ispeer NN_PAIR
             then (NN_WS_HANDSHAKE_VALID, s\<lparr>response_code := NN_WS_HANDSHAKE_RESPONSE_OK\<rparr>)
             else (NN_WS_HANDSHAKE_INVALID,
                   s\<lparr>response_code := NN_WS_HANDSHAKE_RESPONSE_NOTPEER\<rparr>)))"
proof (cases "host s = None \<or> upgrade s = None \<or> conn s = None \<or> key s = None \<or> version s = None")
  case True
  then show ?thesis unfolding client_opening_validate_def by (simp only: if_True)
next
  case False
  then obtain v u c h k where f: "version s = Some v" "upgrade s = Some u" "conn s = Some c"
    "host s = Some h" "key s = Some k" by auto
  from assms(2) f have ok: "slice_ok str (Some v) (version_len s)"
    "slice_ok str (Some u) (upgrade_len s)" "slice_ok str (Some c) (conn_len s)"
    by (simp_all add: request_slices_ok_def)
  show ?thesis
    unfolding client_opening_validate_def
    by (simp add: f nn_ws_validate_value_iff [OF assms(1) ok(1)]
        nn_ws_validate_value_iff [OF assms(1) ok(2)] nn_ws_validate_value_iff [OF assms(1) ok(3)])
qed

lemma match_rc_not_NOMATCH: "(rc \<noteq> NN_WS_HANDSHAKE_NOMATCH) = (rc = NN_WS_HANDSHAKE_MATCH)"
  by (cases rc) simp_all

lemma sp_lookup_found:
  assumes "NUL \<notin> set str" "slice_ok str (Some p) (protocol_len s)"
  shows "distinct (map (\<lambda>e. map tolower (snd e)) m) \<Longrightarrow> (spid, tok) \<in> set m \<Longrightarrow>
    ci_equal tok (field str (Some p) (protocol_len s)) \<Longrightarrow>
    sp_lookup m ispeer str p s =
      (if ispeer spid
       then (NN_WS_HANDSHAKE_VALID, s\<lparr>response_code := NN_WS_HANDSHAKE_RESPONSE_OK\<rparr>)
       else (NN_WS_HANDSHAKE_INVALID, s\<lparr>response_code := NN_WS_HANDSHAKE_RESPONSE_NOTPEER\<rparr>))"
proof (induction m)
  case Nil
  then show ?case by simp
next
  case (Cons e m)
  obtain sp' tok' where e: "e = (sp', tok')" by (cases e)
  show ?case
  proof (cases "(spid, tok) = e")
    case True
    with Cons.prems(3) e show ?thesis
      by (simp add: match_rc_not_NOMATCH nn_ws_validate_value_iff [OF assms])
  next
    case False
    with Cons.prems(2) have m: "(spid, tok) \<in> set m" by simp
    then have "map tolower tok \<in> set (map (\<lambda>e. map tolower (snd e)) m)" by force
    moreover from Cons.prems(1) e
    have "map tolower tok' \<notin> set (map (\<lambda>e. map tolower (snd e)) m)" by simp
    ultimately have "map tolower tok' \<noteq> map tolower tok" by metis
    with Cons.prems(3) have "\<not> ci_equal tok' (field str (Some p) (protocol_len s))"
      by (auto simp add: ci_equal_def)
    with Cons.IH [OF _ m Cons.prems(3)] Cons.prems(1) e show ?thesis
      by (simp add: match_rc_not_NOMATCH nn_ws_validate_value_iff [OF assms])
  qed
qed

lemma sp_lookup_unknown:
  assumes "NUL \<notin> set str" "slice_ok str (Some p) (protocol_len s)"
  shows "\<forall>e \<in> set m. \<not> ci_equal (snd e) (field str (Some p) (protocol_len s)) \<Longrightarrow>
    sp_lookup m ispeer str p s =
      (NN_WS_HANDSHAKE_INVALID, s\<lparr>response_code := NN_WS_HANDSHAKE_RESPONSE_UNKNOWNTYPE\<rparr>)"
proof (induction m)
  case Nil
  then show ?case by simp
next
  case (Cons e m)
  obtain sp' tok' where e: "e = (sp', tok')" by (cases e)
  with Cons show ?case
    by (simp add: match_rc_not_NOMATCH nn_ws_validate_value_iff [OF assms])
qed

lemma SP_MAP_distinct: "distinct (map (\<lambda>e. map tolower (snd e)) NN_WS_HANDSHAKE_SP_MAP)"
  by (simp add: NN_WS_HANDSHAKE_SP_MAP_def tolower_def)

lemma parse_client_opening_parsed:
  assumes "client_opening_parse self = Some (PHASE_PARSED pos s)"
  shows "nn_ws_handshake_parse_client_opening ispeer self =
    Some (client_opening_validate ispeer (request_text self) s)"
    "NUL \<notin> set (request_text self)" "request_slices_ok (request_text self) s"
  using assms client_opening_parse_slices [OF assms]
  by (simp_all add: nn_ws_handshake_parse_client_opening_def request_text_def cstr_no_NUL)

subsection \<open>Example requests\<close>

text \<open>
  \<open>blank n\<close> is a server object with buffers of \<open>n\<close> bytes as \<^verbatim>\<open>nn_ws_handshake_init\<close>
  leaves it, its other fields and its buffers zero; \<open>holding n req\<close> is that object with the
  bytes \<open>req\<close> received into its request buffer.
\<close>

definition blank :: "nat \<Rightarrow> nn_ws_handshake" where
  "blank n = \<lparr>state = NN_WS_HANDSHAKE_STATE_IDLE, mode = NN_WS_SERVER, timer = TIMER_IDLE,
     timeout = 5000, usock_owned = False, recv_posted = None, sent = [], done_raised = [],
     stopped = 0, resource = [], remote_host = [], opening_hs = replicate n NUL,
     response = replicate n NUL, recv_pos = 0, recv_len = 0,
     retries = 0, host = None, host_len = 0, origin = None, origin_len = 0, key = None, key_len = 0,
     upgrade = None, upgrade_len = 0, conn = None, conn_len = 0, version = None, version_len = 0,
     protocol = None, protocol_len = 0, extensions = None, extensions_len = 0, uri = None,
     uri_len = 0, status_code = None, status_code_len = 0, reason_phrase = None,
     reason_phrase_len = 0, server = None, server_len = 0, accept_key = None, accept_key_len = 0,
     expected_accept_key = replicate 29 NUL, response_code = NN_WS_HANDSHAKE_RESPONSE_NULL\<rparr>"

definition holding :: "nat \<Rightarrow> string \<Rightarrow> nn_ws_handshake" where
  "holding n req = (blank n)\<lparr>opening_hs := req @ replicate (n - length req) NUL\<rparr>"

text \<open>A request of version 12 that also asks for another upgrade, and the object after it is
  parsed.\<close>

definition request_old_version :: string where
  "request_old_version = ''GET / HTTP/1.1'' @ NN_WS_HANDSHAKE_CRLF @
     ''Host: a'' @ NN_WS_HANDSHAKE_CRLF @
     ''Upgrade: h2c'' @ NN_WS_HANDSHAKE_CRLF @
     ''Connection: Upgrade'' @ NN_WS_HANDSHAKE_CRLF @
     ''Sec-WebSocket-Key: k'' @ NN_WS_HANDSHAKE_CRLF @
     ''Sec-WebSocket-Version: 12'' @ NN_WS_HANDSHAKE_TERMSEQ"

definition parsed_old_version :: nn_ws_handshake where
  "parsed_old_version = (holding 128 request_old_version)\<lparr>
     uri := Some 4, uri_len := 1, host := Some 22, host_len := 1,
     upgrade := Some 34, upgrade_len := 3, conn := Some 51, conn_len := 7,
     key := Some 79, key_len := 1, version := Some 105, version_len := 2\<rparr>"

text \<open>A request of a REQ socket, and the object after it is parsed.\<close>

definition request_req :: string where
  "request_req = ''GET /chat HTTP/1.1'' @ NN_WS_HANDSHAKE_CRLF @
     ''Host: a'' @ NN_WS_HANDSHAKE_CRLF @
     ''Upgrade: websocket'' @ NN_WS_HANDSHAKE_CRLF @
     ''Connection: Upgrade'' @ NN_WS_HANDSHAKE_CRLF @
     ''Sec-WebSocket-Key: dGhlIHNhbXBsZSBub25jZQ=='' @ NN_WS_HANDSHAKE_CRLF @
     ''Sec-WebSocket-Version: 13'' @ NN_WS_HANDSHAKE_CRLF @
     ''Sec-WebSocket-Protocol: x-nanomsg-REQ'' @ NN_WS_HANDSHAKE_TERMSEQ"

definition parsed_req :: nn_ws_handshake where
  "parsed_req = (holding 256 request_req)\<lparr>
     uri := Some 4, uri_len := 5, host := Some 26, host_len := 1,
     upgrade := Some 38, upgrade_len := 9, conn := Some 61, conn_len := 7,
     key := Some 89, key_len := 24, version := Some 138, version_len := 2,
     protocol := Some 166, protocol_len := 13\<rparr>"

lemma old_version_parsed:
  "client_opening_parse (holding 128 request_old_version) = Some (PHASE_PARSED 111 parsed_old_version)"
  by code_simp

lemma old_version_fields:
  "host parsed_old_version \<noteq> None" "upgrade parsed_old_version \<noteq> None"
  "conn parsed_old_version \<noteq> None" "key parsed_old_version \<noteq> None"
  "version parsed_old_version \<noteq> None"
  "\<not> ci_equal ''13'' (field (request_text (holding 128 request_old_version))
      (version parsed_old_version) (version_len parsed_old_version))"
  by code_simp+

lemma req_parsed:
  "client_opening_parse (holding 256 request_req) = Some (PHASE_PARSED 183 parsed_req)"
  by code_simp

lemma req_fields:
  "host parsed_req \<noteq> None" "upgrade parsed_req \<noteq> None"
  "conn parsed_req \<noteq> None" "key parsed_req \<noteq> None"
  "version parsed_req \<noteq> None"
  "ci_equal ''13'' (field (request_text (holding 256 request_req))
      (version parsed_req) (version_len parsed_req))"
  "ci_equal ''websocket'' (field (request_text (holding 256 request_req))
      (upgrade parsed_req) (upgrade_len parsed_req))"
  "ci_equal ''Upgrade'' (field (request_text (holding 256 request_req))
      (conn parsed_req) (conn_len parsed_req))"
  by code_simp+

lemma req_protocol:
  "protocol parsed_req \<noteq> None"
  "(NN_REQ, ''x-nanomsg-req'') \<in> set NN_WS_HANDSHAKE_SP_MAP"
  "ci_equal ''x-nanomsg-req'' (field (request_text (holding 256 request_req))
      (protocol parsed_req) (protocol_len parsed_req))"
  by code_simp+



subsection \<open>Claim C2: the order of the validation\<close>

text \<open>
  Claim C2. When \<^verbatim>\<open>nn_ws_handshake_parse_client_opening\<close> reaches its validation, having
  parsed the whole header block into the object \<open>s\<close>, the checks run in a fixed order and the
  first failure decides: if one of \<open>host\<close>, \<open>upgrade\<close>, \<open>conn\<close>, \<open>key\<close>, \<open>version\<close> was not
  captured, the result is \<open>INVALID\<close> with the response code \<open>WSPROTO\<close>; otherwise, if the
  version is not \<open>13\<close>, it is \<open>INVALID\<close> with \<open>WSVERSION\<close>; otherwise, if the upgrade is not
  \<open>websocket\<close>, it is \<open>INVALID\<close> with \<open>WSPROTO\<close>; otherwise, if the connection is not
  \<open>Upgrade\<close>, it is \<open>INVALID\<close> with \<open>WSPROTO\<close>. The comparisons ignore case, and nothing
  but the response code changes in the object.
\<close>

theorem parse_client_opening_validation_order:
  assumes "client_opening_parse self = Some (PHASE_PARSED pos s)"
  shows
    "(host s = None \<or> upgrade s = None \<or> conn s = None \<or> key s = None \<or> version s = None \<longrightarrow>
        nn_ws_handshake_parse_client_opening ispeer self =
          Some (NN_WS_HANDSHAKE_INVALID, s\<lparr>response_code := NN_WS_HANDSHAKE_RESPONSE_WSPROTO\<rparr>)) \<and>
     (host s \<noteq> None \<and> upgrade s \<noteq> None \<and> conn s \<noteq> None \<and> key s \<noteq> None \<and> version s \<noteq> None \<longrightarrow>
        (\<not> ci_equal ''13'' (field (request_text self) (version s) (version_len s)) \<longrightarrow>
           nn_ws_handshake_parse_client_opening ispeer self =
             Some (NN_WS_HANDSHAKE_INVALID, s\<lparr>response_code := NN_WS_HANDSHAKE_RESPONSE_WSVERSION\<rparr>)) \<and>
        (ci_equal ''13'' (field (request_text self) (version s) (version_len s)) \<and>
         \<not> ci_equal ''websocket'' (field (request_text self) (upgrade s) (upgrade_len s)) \<longrightarrow>
           nn_ws_handshake_parse_client_opening ispeer self =
             Some (NN_WS_HANDSHAKE_INVALID, s\<lparr>response_code := NN_WS_HANDSHAKE_RESPONSE_WSPROTO\<rparr>)) \<and>
        (ci_equal ''13'' (field (request_text self) (version s) (version_len s)) \<and>
         ci_equal ''websocket'' (field (request_text self) (upgrade s) (upgrade_len s)) \<and>
         \<not> ci_equal ''Upgrade'' (field (request_text self) (conn s) (conn_len s)) \<longrightarrow>
           nn_ws_handshake_parse_client_opening ispeer self =
             Some (NN_WS_HANDSHAKE_INVALID, s\<lparr>response_code := NN_WS_HANDSHAKE_RESPONSE_WSPROTO\<rparr>)))"
proof -
  note p = parse_client_opening_parsed [OF assms]
  show ?thesis
    unfolding p(1) client_opening_validate_rfc [OF p(2) p(3)] by simp
qed

theorem parse_client_opening_validation_order_witness:
  "client_opening_parse (holding 128 request_old_version) = Some (PHASE_PARSED 111 parsed_old_version) \<and>
   nn_ws_handshake_parse_client_opening (\<lambda>sp. True) (holding 128 request_old_version) =
     Some (NN_WS_HANDSHAKE_INVALID,
       parsed_old_version\<lparr>response_code := NN_WS_HANDSHAKE_RESPONSE_WSVERSION\<rparr>)"
  using parse_client_opening_validation_order [OF old_version_parsed, of "\<lambda>sp. True"]
    old_version_parsed old_version_fields
  by blast

subsection \<open>Claim C3: the protocol and the peer check\<close>

text \<open>
  Claim C3. When the request is parsed and the checks of RFC 6455 pass (the five required
  fields are captured, the version is \<open>13\<close>, the upgrade \<open>websocket\<close>, the connection
  \<open>Upgrade\<close>): with a protocol header whose value is, case ignored, a token of the
  ten-entry map, the result is \<open>VALID\<close> with \<open>OK\<close> when the peer check accepts the protocol
  the map gives for it, and \<open>INVALID\<close> with \<open>NOTPEER\<close> when it does not; with a protocol
  header whose value is no token of the map, it is \<open>INVALID\<close> with \<open>UNKNOWNTYPE\<close>; and
  without a protocol header the peer check is asked about \<open>NN_PAIR\<close>: \<open>VALID\<close> with \<open>OK\<close>
  when it accepts, \<open>INVALID\<close> with \<open>NOTPEER\<close> otherwise.
\<close>

theorem parse_client_opening_sp_check:
  assumes "client_opening_parse self = Some (PHASE_PARSED pos s)"
    and "host s \<noteq> None" "upgrade s \<noteq> None" "conn s \<noteq> None" "key s \<noteq> None" "version s \<noteq> None"
    and "ci_equal ''13'' (field (request_text self) (version s) (version_len s))"
    and "ci_equal ''websocket'' (field (request_text self) (upgrade s) (upgrade_len s))"
    and "ci_equal ''Upgrade'' (field (request_text self) (conn s) (conn_len s))"
  shows
    "length NN_WS_HANDSHAKE_SP_MAP = 10 \<and>
     (protocol s \<noteq> None \<longrightarrow>
        (\<forall>(spid, tok) \<in> set NN_WS_HANDSHAKE_SP_MAP.
           ci_equal tok (field (request_text self) (protocol s) (protocol_len s)) \<longrightarrow>
           nn_ws_handshake_parse_client_opening ispeer self =
             Some (if ispeer spid
                   then (NN_WS_HANDSHAKE_VALID, s\<lparr>response_code := NN_WS_HANDSHAKE_RESPONSE_OK\<rparr>)
                   else (NN_WS_HANDSHAKE_INVALID,
                         s\<lparr>response_code := NN_WS_HANDSHAKE_RESPONSE_NOTPEER\<rparr>))) \<and>
        ((\<forall>(spid, tok) \<in> set NN_WS_HANDSHAKE_SP_MAP.
            \<not> ci_equal tok (field (request_text self) (protocol s) (protocol_len s))) \<longrightarrow>
           nn_ws_handshake_parse_client_opening ispeer self =
             Some (NN_WS_HANDSHAKE_INVALID,
                   s\<lparr>response_code := NN_WS_HANDSHAKE_RESPONSE_UNKNOWNTYPE\<rparr>))) \<and>
     (protocol s = None \<longrightarrow>
        nn_ws_handshake_parse_client_opening ispeer self =
          Some (if ispeer NN_PAIR
                then (NN_WS_HANDSHAKE_VALID, s\<lparr>response_code := NN_WS_HANDSHAKE_RESPONSE_OK\<rparr>)
                else (NN_WS_HANDSHAKE_INVALID,
                      s\<lparr>response_code := NN_WS_HANDSHAKE_RESPONSE_NOTPEER\<rparr>)))"
proof -
  note p = parse_client_opening_parsed [OF assms(1)]
  have v: "nn_ws_handshake_parse_client_opening ispeer self =
    Some (case protocol s of
           Some p \<Rightarrow> sp_lookup NN_WS_HANDSHAKE_SP_MAP ispeer (request_text self) p s
         | None \<Rightarrow>
             if ispeer NN_PAIR
             then (NN_WS_HANDSHAKE_VALID, s\<lparr>response_code := NN_WS_HANDSHAKE_RESPONSE_OK\<rparr>)
             else (NN_WS_HANDSHAKE_INVALID,
                   s\<lparr>response_code := NN_WS_HANDSHAKE_RESPONSE_NOTPEER\<rparr>))"
  proof -
    have m: "(host s = None \<or> upgrade s = None \<or> conn s = None \<or> key s = None \<or>
        version s = None) = False"
      using assms(2-6) by blast
    show ?thesis
      unfolding p(1) client_opening_validate_rfc [OF p(2) p(3)] m
      using assms(7-9) by simp
  qed
  have a: "length NN_WS_HANDSHAKE_SP_MAP = 10" by (simp add: NN_WS_HANDSHAKE_SP_MAP_def)
  have b: "nn_ws_handshake_parse_client_opening ispeer self =
             Some (if ispeer spid
                   then (NN_WS_HANDSHAKE_VALID, s\<lparr>response_code := NN_WS_HANDSHAKE_RESPONSE_OK\<rparr>)
                   else (NN_WS_HANDSHAKE_INVALID,
                         s\<lparr>response_code := NN_WS_HANDSHAKE_RESPONSE_NOTPEER\<rparr>))"
    if "protocol s = Some q" "(spid, tok) \<in> set NN_WS_HANDSHAKE_SP_MAP"
      "ci_equal tok (field (request_text self) (protocol s) (protocol_len s))" for q spid tok
  proof -
    from p(3) that(1) have ok: "slice_ok (request_text self) (Some q) (protocol_len s)"
      by (simp add: request_slices_ok_def)
    from sp_lookup_found [OF p(2) ok SP_MAP_distinct that(2) that(3) [unfolded that(1)]]
    show ?thesis unfolding v by (simp add: that(1))
  qed
  have c: "nn_ws_handshake_parse_client_opening ispeer self =
             Some (NN_WS_HANDSHAKE_INVALID,
                   s\<lparr>response_code := NN_WS_HANDSHAKE_RESPONSE_UNKNOWNTYPE\<rparr>)"
    if "protocol s = Some q" "\<forall>(spid, tok) \<in> set NN_WS_HANDSHAKE_SP_MAP.
            \<not> ci_equal tok (field (request_text self) (protocol s) (protocol_len s))" for q
  proof -
    from p(3) that(1) have ok: "slice_ok (request_text self) (Some q) (protocol_len s)"
      by (simp add: request_slices_ok_def)
    from that(2) have "\<forall>e \<in> set NN_WS_HANDSHAKE_SP_MAP.
        \<not> ci_equal (snd e) (field (request_text self) (Some q) (protocol_len s))"
      unfolding that(1) by auto
    from sp_lookup_unknown [OF p(2) ok this]
    show ?thesis unfolding v by (simp add: that(1))
  qed
  have d: "protocol s = None \<Longrightarrow> nn_ws_handshake_parse_client_opening ispeer self =
          Some (if ispeer NN_PAIR
                then (NN_WS_HANDSHAKE_VALID, s\<lparr>response_code := NN_WS_HANDSHAKE_RESPONSE_OK\<rparr>)
                else (NN_WS_HANDSHAKE_INVALID,
                      s\<lparr>response_code := NN_WS_HANDSHAKE_RESPONSE_NOTPEER\<rparr>))"
    unfolding v by simp
  from a b c d show ?thesis by blast
qed

theorem parse_client_opening_sp_check_witness:
  "client_opening_parse (holding 256 request_req) = Some (PHASE_PARSED 183 parsed_req) \<and>
   nn_ws_handshake_parse_client_opening (\<lambda>sp. sp = NN_REQ) (holding 256 request_req) =
     Some (NN_WS_HANDSHAKE_VALID, parsed_req\<lparr>response_code := NN_WS_HANDSHAKE_RESPONSE_OK\<rparr>)"
  using parse_client_opening_sp_check [OF req_parsed req_fields, of "\<lambda>sp. sp = NN_REQ"]
    req_parsed req_protocol
  by fastforce

subsection \<open>Claim C9: a failed match changes nothing\<close>




subsection \<open>The response parser (\<^verbatim>\<open>nn_ws_handshake_parse_server_response\<close>)\<close>

text \<open>One pass of the loop over the header lines of the response.\<close>

definition server_header_step :: "string \<Rightarrow> nat \<Rightarrow> nn_ws_handshake \<Rightarrow> hdr_step option" where
  "server_header_step str pos self =
     (case nn_ws_match_token ''Server:'' str pos True False of
        None \<Rightarrow> None
      | Some (rc, pos) \<Rightarrow>
          if rc = NN_WS_HANDSHAKE_MATCH then
            (case nn_ws_match_value NN_WS_HANDSHAKE_CRLF str pos True True of
               (rc, pos, addr, len) \<Rightarrow>
                 Some (HDR_NEXT rc pos (self\<lparr>server := addr, server_len := len\<rparr>)))
          else
       (case nn_ws_match_token ''Sec-WebSocket-Accept:'' str pos True False of
          None \<Rightarrow> None
        | Some (rc, pos) \<Rightarrow>
            if rc = NN_WS_HANDSHAKE_MATCH then
              (case nn_ws_match_value NN_WS_HANDSHAKE_CRLF str pos True True of
                 (rc, pos, addr, len) \<Rightarrow>
                   Some (HDR_NEXT rc pos (self\<lparr>accept_key := addr, accept_key_len := len\<rparr>)))
            else
         (case nn_ws_match_token ''Upgrade:'' str pos True False of
            None \<Rightarrow> None
          | Some (rc, pos) \<Rightarrow>
              if rc = NN_WS_HANDSHAKE_MATCH then
                (case nn_ws_match_value NN_WS_HANDSHAKE_CRLF str pos True True of
                   (rc, pos, addr, len) \<Rightarrow>
                     Some (HDR_NEXT rc pos (self\<lparr>upgrade := addr, upgrade_len := len\<rparr>)))
              else
           (case nn_ws_match_token ''Connection:'' str pos True False of
              None \<Rightarrow> None
            | Some (rc, pos) \<Rightarrow>
                if rc = NN_WS_HANDSHAKE_MATCH then
                  (case nn_ws_match_value NN_WS_HANDSHAKE_CRLF str pos True True of
                     (rc, pos, addr, len) \<Rightarrow>
                       Some (HDR_NEXT rc pos (self\<lparr>conn := addr, conn_len := len\<rparr>)))
                else
             (case nn_ws_match_token ''Sec-WebSocket-Version-Server:'' str pos True False of
                None \<Rightarrow> None
              | Some (rc, pos) \<Rightarrow>
                  if rc = NN_WS_HANDSHAKE_MATCH then
                    (case nn_ws_match_value NN_WS_HANDSHAKE_CRLF str pos True True of
                       (rc, pos, addr, len) \<Rightarrow>
                         Some (HDR_NEXT rc pos (self\<lparr>version := addr, version_len := len\<rparr>)))
                  else
               (case nn_ws_match_token ''Sec-WebSocket-Protocol-Server:'' str pos True False of
                  None \<Rightarrow> None
                | Some (rc, pos) \<Rightarrow>
                    if rc = NN_WS_HANDSHAKE_MATCH then
                      (case nn_ws_match_value NN_WS_HANDSHAKE_CRLF str pos True True of
                         (rc, pos, addr, len) \<Rightarrow>
                           Some (HDR_NEXT rc pos (self\<lparr>protocol := addr, protocol_len := len\<rparr>)))
                    else
                 (case nn_ws_match_token ''Sec-WebSocket-Extensions:'' str pos True False of
                    None \<Rightarrow> None
                  | Some (rc, pos) \<Rightarrow>
                      if rc = NN_WS_HANDSHAKE_MATCH then
                        (case nn_ws_match_value NN_WS_HANDSHAKE_CRLF str pos True True of
                           (rc, pos, addr, len) \<Rightarrow>
                             Some (HDR_NEXT rc pos (self\<lparr>extensions := addr, extensions_len := len\<rparr>)))
                      else
                   (case nn_ws_match_token NN_WS_HANDSHAKE_CRLF str pos True False of
                      None \<Rightarrow> None
                    | Some (rc, pos) \<Rightarrow>
                        if rc = NN_WS_HANDSHAKE_MATCH then Some (HDR_BREAK pos)
                        else
                          (case nn_ws_match_value NN_WS_HANDSHAKE_CRLF str pos True True of
                             (rc, pos, addr, len) \<Rightarrow> Some (HDR_NEXT rc pos self))))))))))"

lemma server_header_step_advance:
  assumes "server_header_step str pos self = Some (HDR_NEXT NN_WS_HANDSHAKE_MATCH pos' self')"
  shows "pos < pos'"
  using assms unfolding server_header_step_def
  by (elim field_cases last_cases)
    (auto dest!: nn_ws_match_value_match [OF _ CRLF_nonempty])

function server_header_loop :: "string \<Rightarrow> nat \<Rightarrow> nn_ws_handshake \<Rightarrow> parse_phase option" where
  "server_header_loop str pos self =
     (if pos < length str then
        (case server_header_step str pos self of
           None \<Rightarrow> None
         | Some (HDR_BREAK pos') \<Rightarrow> Some (PHASE_PARSED pos' self)
         | Some (HDR_NEXT rc pos' self') \<Rightarrow>
             if rc \<noteq> NN_WS_HANDSHAKE_MATCH then Some (PHASE_RECV_MORE self')
             else server_header_loop str pos' self')
      else Some (PHASE_PARSED pos self))"
  by pat_completeness auto
termination
proof (relation "measure (\<lambda>(str, pos, self). length str - pos)")
  fix str :: string and pos self x2 x x22 x222 and x21 :: match_rc
  assume "pos < length str" "server_header_step str pos self = Some x2"
    "x2 = HDR_NEXT x21 x22 x222" "\<not> x21 \<noteq> NN_WS_HANDSHAKE_MATCH"
  then have "pos < x22" using server_header_step_advance [of str pos self x22 x222] by simp
  with \<open>pos < length str\<close>
  show "((str, x22, x222), (str, pos, self)) \<in> measure (\<lambda>(str, pos, self). length str - pos)"
    by simp
qed simp

declare server_header_loop.simps [simp del]

text \<open>
  The parser up to the validation: the two assertions on the buffer, the search for the
  terminating sequence, the reset of the fields, the status line, the header loop and
  \<^verbatim>\<open>nn_assert (strlen (pos) == 0)\<close>.
\<close>

definition server_response_parse :: "nn_ws_handshake \<Rightarrow> parse_phase option" where
  "server_response_parse self =
     (if NUL \<notin> set (response self) then None
      else
        let str = cstr (response self) 0 in
        if \<not> length str < length (response self) then None
        else if strstr str 0 NN_WS_HANDSHAKE_TERMSEQ = None then Some (PHASE_RECV_MORE self)
        else
          let self = self\<lparr>status_code := None, reason_phrase := None, server := None,
                accept_key := None, upgrade := None, conn := None, version := None,
                protocol := None,
                status_code_len := 0, reason_phrase_len := 0, server_len := 0,
                accept_key_len := 0, upgrade_len := 0, conn_len := 0, version_len := 0,
                protocol_len := 0\<rparr> in
          case nn_ws_match_token ''HTTP/1.1 '' str 0 False False of
            None \<Rightarrow> None
          | Some (rc, pos) \<Rightarrow>
              if rc = NN_WS_HANDSHAKE_NOMATCH then Some (PHASE_RECV_MORE self)
              else
                (case nn_ws_match_value '' '' str pos False False of
                   (rc, pos, addr, len) \<Rightarrow>
                     let self = self\<lparr>status_code := addr, status_code_len := len\<rparr> in
                     if rc = NN_WS_HANDSHAKE_NOMATCH then Some (PHASE_RECV_MORE self)
                     else
                       (case nn_ws_match_value NN_WS_HANDSHAKE_CRLF str pos False False of
                          (rc, pos, addr, len) \<Rightarrow>
                            let self = self\<lparr>reason_phrase := addr, reason_phrase_len := len\<rparr> in
                            if rc = NN_WS_HANDSHAKE_NOMATCH then Some (PHASE_RECV_MORE self)
                            else
                              (case server_header_loop str pos self of
                                 None \<Rightarrow> None
                               | Some (PHASE_RECV_MORE self) \<Rightarrow> Some (PHASE_RECV_MORE self)
                               | Some (PHASE_PARSED pos self) \<Rightarrow>
                                   if pos < length str then None
                                   else Some (PHASE_PARSED pos self)))))"

text \<open>The validation, on the C string \<open>str\<close> the slices point into; the expected key is the
  C string in the array \<^verbatim>\<open>expected_accept_key\<close>.\<close>

definition server_response_validate :: "string \<Rightarrow> nn_ws_handshake \<Rightarrow> parse_rc" where
  "server_response_validate str self =
     (if status_code self = None \<or> upgrade self = None \<or> conn self = None \<or>
         accept_key self = None
      then NN_WS_HANDSHAKE_INVALID
      else if nn_ws_validate_value ''101'' str (the (status_code self)) (status_code_len self) True
          \<noteq> NN_WS_HANDSHAKE_MATCH
      then NN_WS_HANDSHAKE_INVALID
      else if nn_ws_validate_value ''websocket'' str (the (upgrade self)) (upgrade_len self) True
          \<noteq> NN_WS_HANDSHAKE_MATCH
      then NN_WS_HANDSHAKE_INVALID
      else if nn_ws_validate_value ''Upgrade'' str (the (conn self)) (conn_len self) True
          \<noteq> NN_WS_HANDSHAKE_MATCH
      then NN_WS_HANDSHAKE_INVALID
      else if nn_ws_validate_value (cstr (expected_accept_key self) 0) str
            (the (accept_key self)) (accept_key_len self) True
          \<noteq> NN_WS_HANDSHAKE_MATCH
      then NN_WS_HANDSHAKE_INVALID
      else NN_WS_HANDSHAKE_VALID)"

text \<open>\<^verbatim>\<open>nn_ws_handshake_parse_server_response\<close> returns its result and the object;
  \<open>None\<close> is a failed assertion.\<close>

definition nn_ws_handshake_parse_server_response ::
    "nn_ws_handshake \<Rightarrow> (parse_rc \<times> nn_ws_handshake) option" where
  "nn_ws_handshake_parse_server_response self =
     (case server_response_parse self of
        None \<Rightarrow> None
      | Some (PHASE_RECV_MORE self) \<Rightarrow> Some (NN_WS_HANDSHAKE_RECV_MORE, self)
      | Some (PHASE_PARSED pos self') \<Rightarrow>
          Some (server_response_validate (cstr (response self) 0) self', self'))"

text \<open>The C string in the response buffer, and the slices that the response parser resets.\<close>

definition response_text :: "nn_ws_handshake \<Rightarrow> string" where
  "response_text self = cstr (response self) 0"

definition response_slices_ok :: "string \<Rightarrow> nn_ws_handshake \<Rightarrow> bool" where
  "response_slices_ok str self =
     (slice_ok str (status_code self) (status_code_len self) \<and>
      slice_ok str (reason_phrase self) (reason_phrase_len self) \<and>
      slice_ok str (server self) (server_len self) \<and>
      slice_ok str (accept_key self) (accept_key_len self) \<and>
      slice_ok str (upgrade self) (upgrade_len self) \<and>
      slice_ok str (conn self) (conn_len self) \<and>
      slice_ok str (version self) (version_len self) \<and>
      slice_ok str (protocol self) (protocol_len self))"

lemma server_header_step_slices:
  assumes "server_header_step str pos self = Some (HDR_NEXT rc pos' self')"
    "response_slices_ok str self"
  shows "response_slices_ok str self'"
  using assms unfolding server_header_step_def
  by (elim field_cases last_cases)
    (auto simp add: response_slices_ok_def dest!: match_value_slice_ok)

lemma server_header_loop_slices:
  "server_header_loop str pos self = Some (PHASE_PARSED pos' self') \<Longrightarrow>
   response_slices_ok str self \<Longrightarrow> response_slices_ok str self'"
proof (induction str pos self rule: server_header_loop.induct)
  case (1 str pos self)
  show ?case
  proof (cases "pos < length str")
    case False
    with "1.prems" show ?thesis by (simp add: server_header_loop.simps [of str pos self])
  next
    case True
    show ?thesis
    proof (cases "server_header_step str pos self")
      case None
      with True "1.prems" show ?thesis by (simp add: server_header_loop.simps [of str pos self])
    next
      case (Some r)
      show ?thesis
      proof (cases r)
        case (HDR_BREAK p)
        with Some True "1.prems" show ?thesis
          by (simp add: server_header_loop.simps [of str pos self])
      next
        case (HDR_NEXT rc p s)
        with Some True "1.prems" have rc: "rc = NN_WS_HANDSHAKE_MATCH"
          and l: "server_header_loop str p s = Some (PHASE_PARSED pos' self')"
          by (auto simp add: server_header_loop.simps [of str pos self] split: if_splits)
        from server_header_step_slices [OF Some [unfolded HDR_NEXT] "1.prems"(2)]
        have "response_slices_ok str s" .
        with "1.IH" [OF True Some HDR_NEXT _ l] rc show ?thesis by simp
      qed
    qed
  qed
qed

lemma server_response_parse_slices:
  assumes "server_response_parse self = Some (PHASE_PARSED pos s)"
  shows "response_slices_ok (cstr (response self) 0) s"
proof -
  let ?str = "cstr (response self) 0"
  have *: "response_slices_ok ?str s"
    if "nn_ws_match_value '' '' ?str p False False = (rc, p', addr, len)"
      and "nn_ws_match_value NN_WS_HANDSHAKE_CRLF ?str p' False False = (rc', q, addr', len')"
      and "server_header_loop ?str q (self\<lparr>status_code := None, reason_phrase := None, server := None,
                accept_key := None, upgrade := None, conn := None, version := None,
                protocol := None,
                status_code_len := 0, reason_phrase_len := 0, server_len := 0,
                accept_key_len := 0, upgrade_len := 0, conn_len := 0, version_len := 0,
                protocol_len := 0, status_code := addr, status_code_len := len,
                reason_phrase := addr', reason_phrase_len := len'\<rparr>)
           = Some (PHASE_PARSED pos' s)"
    for p rc p' addr len q pos' rc' addr' len'
  proof (rule server_header_loop_slices [OF that(3)])
    from nn_ws_match_value_slice [OF that(1)] nn_ws_match_value_slice [OF that(2) CRLF_nonempty]
    show "response_slices_ok ?str (self\<lparr>status_code := None, reason_phrase := None, server := None,
                accept_key := None, upgrade := None, conn := None, version := None,
                protocol := None,
                status_code_len := 0, reason_phrase_len := 0, server_len := 0,
                accept_key_len := 0, upgrade_len := 0, conn_len := 0, version_len := 0,
                protocol_len := 0, status_code := addr, status_code_len := len,
                reason_phrase := addr', reason_phrase_len := len'\<rparr>)"
      by (simp add: response_slices_ok_def slice_ok_def)
  qed
  from assms show ?thesis
    unfolding server_response_parse_def
    by (auto simp add: Let_def split: if_splits option.splits prod.splits parse_phase.splits
        dest: *)
qed

lemma server_response_parse_termseq:
  assumes "server_response_parse self = Some (PHASE_PARSED pos s)"
  shows "sublist NN_WS_HANDSHAKE_TERMSEQ (response_text self)"
proof (rule ccontr)
  assume "\<not> sublist NN_WS_HANDSHAKE_TERMSEQ (response_text self)"
  then have "strstr (cstr (response self) 0) 0 NN_WS_HANDSHAKE_TERMSEQ = None"
    by (simp add: strstr_0_None response_text_def)
  with assms show False
    by (simp add: server_response_parse_def Let_def split: if_splits)
qed

lemma tolower_fixed:
  assumes "c \<notin> set ''abcdefghijklmnopqrstuvwxyz''" "c \<notin> set ''ABCDEFGHIJKLMNOPQRSTUVWXYZ''"
  shows "tolower x = c \<longleftrightarrow> x = c"
proof (cases "map_of (zip ''ABCDEFGHIJKLMNOPQRSTUVWXYZ'' ''abcdefghijklmnopqrstuvwxyz'') x")
  case None
  then show ?thesis unfolding tolower_def by simp
next
  case (Some l)
  from map_of_SomeD [OF Some] have "l \<in> set ''abcdefghijklmnopqrstuvwxyz''"
    by (rule set_zip_rightD)
  with assms(1) have "l \<noteq> c" by blast
  moreover from map_of_SomeD [OF Some] have "x \<in> set ''ABCDEFGHIJKLMNOPQRSTUVWXYZ''"
    by (rule set_zip_leftD)
  with assms(2) have "x \<noteq> c" by blast
  ultimately show ?thesis using Some unfolding tolower_def by simp
qed

lemma ci_equal_101: "ci_equal ''101'' x \<longleftrightarrow> x = ''101''"
proof -
  have a: "tolower y = CHR ''1'' \<longleftrightarrow> y = CHR ''1''" for y by (rule tolower_fixed) simp_all
  have b: "tolower y = CHR ''0'' \<longleftrightarrow> y = CHR ''0''" for y by (rule tolower_fixed) simp_all
  have c: "tolower CHR ''1'' = CHR ''1''" "tolower CHR ''0'' = CHR ''0''" by (simp_all add: a b)
  have "map tolower x = ''101'' \<longleftrightarrow> x = ''101''"
    by (auto simp add: map_eq_Cons_conv a b c)
  then show ?thesis
    unfolding ci_equal_def by (auto simp add: c)
qed

lemma server_response_validate_iff:
  assumes "NUL \<notin> set str" "response_slices_ok str s"
  shows "server_response_validate str s =
     (if status_code s \<noteq> None \<and> upgrade s \<noteq> None \<and> conn s \<noteq> None \<and> accept_key s \<noteq> None \<and>
         field str (status_code s) (status_code_len s) = ''101'' \<and>
         ci_equal ''websocket'' (field str (upgrade s) (upgrade_len s)) \<and>
         ci_equal ''Upgrade'' (field str (conn s) (conn_len s)) \<and>
         ci_equal (cstr (expected_accept_key s) 0) (field str (accept_key s) (accept_key_len s))
      then NN_WS_HANDSHAKE_VALID else NN_WS_HANDSHAKE_INVALID)"
proof (cases "status_code s = None \<or> upgrade s = None \<or> conn s = None \<or> accept_key s = None")
  case True
  then show ?thesis unfolding server_response_validate_def by auto
next
  case False
  then obtain c u n a where f: "status_code s = Some c" "upgrade s = Some u" "conn s = Some n"
    "accept_key s = Some a" by auto
  from assms(2) f have ok: "slice_ok str (Some c) (status_code_len s)"
    "slice_ok str (Some u) (upgrade_len s)" "slice_ok str (Some n) (conn_len s)"
    "slice_ok str (Some a) (accept_key_len s)"
    by (simp_all add: response_slices_ok_def)
  show ?thesis
    unfolding server_response_validate_def
    by (simp add: f nn_ws_validate_value_iff [OF assms(1) ok(1)]
        nn_ws_validate_value_iff [OF assms(1) ok(2)] nn_ws_validate_value_iff [OF assms(1) ok(3)]
        nn_ws_validate_value_iff [OF assms(1) ok(4)] ci_equal_101)
qed

text \<open>
  A response that accepts, its header values in another case than expected, and a client
  object with buffers of \<open>n\<close> bytes that has received \<open>resp\<close> and expects the accept key of
  RFC 6455.
\<close>

definition response_ok :: string where
  "response_ok = ''HTTP/1.1 101 Switching Protocols'' @ NN_WS_HANDSHAKE_CRLF @
     ''Upgrade: WebSocket'' @ NN_WS_HANDSHAKE_CRLF @
     ''Connection: upgrade'' @ NN_WS_HANDSHAKE_CRLF @
     ''Sec-WebSocket-Accept: S3PPLMBiTxaQ9kYGzzhZRbK+xOo='' @ NN_WS_HANDSHAKE_CRLF @
     ''Sec-WebSocket-Protocol-Server: x-nanomsg-rep'' @ NN_WS_HANDSHAKE_TERMSEQ"

definition awaiting :: "nat \<Rightarrow> string \<Rightarrow> nn_ws_handshake" where
  "awaiting n resp = (blank n)\<lparr>mode := NN_WS_CLIENT,
     response := resp @ replicate (n - length resp) NUL,
     expected_accept_key := ''s3pPLMBiTxaQ9kYGzzhZRbK+xOo='' @ [NUL]\<rparr>"

definition parsed_response :: nn_ws_handshake where
  "parsed_response = (awaiting 256 response_ok)\<lparr>
     status_code := Some 9, status_code_len := 3, reason_phrase := Some 13,
     reason_phrase_len := 19, upgrade := Some 43, upgrade_len := 9, conn := Some 66,
     conn_len := 7, accept_key := Some 97, accept_key_len := 28, protocol := Some 158,
     protocol_len := 13\<rparr>"

lemma response_ok_parsed:
  "server_response_parse (awaiting 256 response_ok) = Some (PHASE_PARSED 175 parsed_response)"
  by code_simp

lemma response_ok_fields:
  "status_code parsed_response \<noteq> None" "upgrade parsed_response \<noteq> None"
  "conn parsed_response \<noteq> None" "accept_key parsed_response \<noteq> None"
  "field (response_text (awaiting 256 response_ok)) (status_code parsed_response)
      (status_code_len parsed_response) = ''101''"
  "ci_equal ''websocket'' (field (response_text (awaiting 256 response_ok))
      (upgrade parsed_response) (upgrade_len parsed_response))"
  "ci_equal ''Upgrade'' (field (response_text (awaiting 256 response_ok))
      (conn parsed_response) (conn_len parsed_response))"
  "ci_equal (cstr (expected_accept_key parsed_response) 0)
      (field (response_text (awaiting 256 response_ok))
        (accept_key parsed_response) (accept_key_len parsed_response))"
  by code_simp+

subsection \<open>Claim C4: the responses that are accepted\<close>

text \<open>
  Claim C4. \<^verbatim>\<open>nn_ws_handshake_parse_server_response\<close> returns \<open>VALID\<close>, with the object
  \<open>s\<close>, if and only if it has parsed the whole response into \<open>s\<close> and in \<open>s\<close> the slices
  \<open>status_code\<close>, \<open>upgrade\<close>, \<open>conn\<close> and \<open>accept_key\<close> are captured, the status code is
  \<open>101\<close>, the upgrade is \<open>websocket\<close> and the connection \<open>Upgrade\<close>, case ignored, and the
  accept key equals the expected accept key, byte by byte with the case of letters ignored.
  It returns \<open>INVALID\<close> if and only if it has parsed the whole response and one of these
  checks fails. A response that is parsed to the end contains \<open>CRLFCRLF\<close>.
\<close>

theorem parse_server_response_valid_iff:
  "(nn_ws_handshake_parse_server_response self = Some (NN_WS_HANDSHAKE_VALID, s) \<longleftrightarrow>
      (\<exists>pos. server_response_parse self = Some (PHASE_PARSED pos s)) \<and>
      status_code s \<noteq> None \<and> upgrade s \<noteq> None \<and> conn s \<noteq> None \<and> accept_key s \<noteq> None \<and>
      field (response_text self) (status_code s) (status_code_len s) = ''101'' \<and>
      ci_equal ''websocket'' (field (response_text self) (upgrade s) (upgrade_len s)) \<and>
      ci_equal ''Upgrade'' (field (response_text self) (conn s) (conn_len s)) \<and>
      ci_equal (cstr (expected_accept_key s) 0)
        (field (response_text self) (accept_key s) (accept_key_len s))) \<and>
   (nn_ws_handshake_parse_server_response self = Some (NN_WS_HANDSHAKE_INVALID, s) \<longleftrightarrow>
      (\<exists>pos. server_response_parse self = Some (PHASE_PARSED pos s)) \<and>
      \<not> (status_code s \<noteq> None \<and> upgrade s \<noteq> None \<and> conn s \<noteq> None \<and> accept_key s \<noteq> None \<and>
         field (response_text self) (status_code s) (status_code_len s) = ''101'' \<and>
         ci_equal ''websocket'' (field (response_text self) (upgrade s) (upgrade_len s)) \<and>
         ci_equal ''Upgrade'' (field (response_text self) (conn s) (conn_len s)) \<and>
         ci_equal (cstr (expected_accept_key s) 0)
           (field (response_text self) (accept_key s) (accept_key_len s)))) \<and>
   ((\<exists>pos. server_response_parse self = Some (PHASE_PARSED pos s)) \<longrightarrow>
      sublist NN_WS_HANDSHAKE_TERMSEQ (response_text self))"
proof (cases "server_response_parse self")
  case None
  then show ?thesis by (simp add: nn_ws_handshake_parse_server_response_def)
next
  case (Some ph)
  show ?thesis
  proof (cases ph)
    case (PHASE_RECV_MORE s')
    with Some show ?thesis by (simp add: nn_ws_handshake_parse_server_response_def)
  next
    case (PHASE_PARSED pos' s')
    with Some have p: "server_response_parse self = Some (PHASE_PARSED pos' s')" by simp
    have n: "NUL \<notin> set (response_text self)" by (simp add: response_text_def cstr_no_NUL)
    from server_response_parse_slices [OF p]
    have ok: "response_slices_ok (response_text self) s'" by (simp add: response_text_def)
    have r: "nn_ws_handshake_parse_server_response self =
      Some (server_response_validate (response_text self) s', s')"
      using p by (simp add: nn_ws_handshake_parse_server_response_def response_text_def)
    show ?thesis
    proof (cases "s = s'")
      case True
      with p r server_response_parse_termseq [OF p] show ?thesis
        by (simp add: server_response_validate_iff [OF n ok])
    next
      case False
      then have "s' \<noteq> s" by blast
      with p r False show ?thesis by simp
    qed
  qed
qed

theorem parse_server_response_valid_iff_witness:
  "server_response_parse (awaiting 256 response_ok) = Some (PHASE_PARSED 175 parsed_response) \<and>
   sublist NN_WS_HANDSHAKE_TERMSEQ (response_text (awaiting 256 response_ok)) \<and>
   nn_ws_handshake_parse_server_response (awaiting 256 response_ok) =
     Some (NN_WS_HANDSHAKE_VALID, parsed_response)"
proof -
  note t = parse_server_response_valid_iff [of "awaiting 256 response_ok" parsed_response]
  have e: "\<exists>pos. server_response_parse (awaiting 256 response_ok) =
      Some (PHASE_PARSED pos parsed_response)"
    using response_ok_parsed by blast
  have "nn_ws_handshake_parse_server_response (awaiting 256 response_ok) =
     Some (NN_WS_HANDSHAKE_VALID, parsed_response)"
    by (rule iffD2 [OF conjunct1 [OF t]]) (intro conjI e response_ok_fields)
  moreover from t e have "sublist NN_WS_HANDSHAKE_TERMSEQ (response_text (awaiting 256 response_ok))"
    by blast
  ultimately show ?thesis using response_ok_parsed by blast
qed

end
